theory Spec2Isabelle
  imports Main "HOL-Library.Multiset"
begin

unbundle bit_operations_syntax

section \<open>The hash table of hashmap.c\<close>

text \<open>
  The table of \<^verbatim>\<open>hashmap.c\<close> is an array of bucket heads; every bucket is a singly
  linked chain threaded through the \<^verbatim>\<open>hash_node\<close> embedded in the caller's records.

  \<^item> A \<^verbatim>\<open>struct hash_node\<close> is a record of its cached \<open>hash\<close> and of the caller's
    record it is embedded in (\<open>container\<close>, what \<^verbatim>\<open>container_of\<close> recovers; two
    physically different links have different containers). Its \<^verbatim>\<open>next\<close> pointer is
    the list structure: a chain is the list of the nodes met from the bucket head by
    following \<^verbatim>\<open>next\<close>, \<^verbatim>\<open>NULL\<close> is the empty list, \<^verbatim>\<open>node->next = b; b = node\<close>
    is \<open>node # b\<close>. This is exact for the tables the interface builds when the caller
    respects the precondition of \<^verbatim>\<open>hashmap_insert\<close> (the node is not yet in a table):
    chains are then finite and share no node.
  \<^item> \<^verbatim>\<open>map->table\<close> is the list of the allocated slots, or \<open>None\<close> for \<^verbatim>\<open>NULL\<close>.
    A read or write of a slot that is not allocated is undefined behaviour in C and is
    the value \<open>Fault\<close> here.
  \<^item> \<^verbatim>\<open>calloc\<close> and \<^verbatim>\<open>realloc\<close> may fail. Every interface function allocates at
    most once, so it takes one boolean: whether that allocation succeeds.
  \<^item> \<^verbatim>\<open>size_t\<close> is \<open>nat\<close>. A table holds distinct nodes of at least two machine
    words each, so \<open>count\<close> stays far below the range of \<^verbatim>\<open>size_t\<close>, and \<open>len\<close> is
    doubled only when \<open>count\<close> exceeds three times \<open>len\<close>: no computation of the
    source wraps around. \<open>len\<close> is never \<open>0\<close>, so \<open>len - 1\<close> is the C value.
\<close>

record 'r hash_node =
  hash :: nat
  container :: 'r

type_synonym 'r chain = "'r hash_node list"

record ('k, 'r) hashmap =
  table :: "'r chain list option"
  len :: nat
  count :: nat
  hashf :: "'k \<Rightarrow> nat"
  cmp :: "'r hash_node \<Rightarrow> 'k \<Rightarrow> int"

datatype 'a outcome = Fault | Done 'a

definition MIN_SLOTS :: nat where
  "MIN_SLOTS = 16"

subsection \<open>Memory: allocation and slot access\<close>

text \<open>\<^verbatim>\<open>calloc(n, sizeof(struct hash_node *))\<close>: \<open>n\<close> slots, all \<^verbatim>\<open>NULL\<close>.\<close>

definition calloc :: "bool \<Rightarrow> nat \<Rightarrow> 'r chain list option" where
  "calloc ok n = (if ok then Some (replicate n []) else None)"

text \<open>
  \<^verbatim>\<open>realloc(table, n * sizeof(struct hash_node *))\<close>: on success the first slots keep
  their contents. The contents of added slots are indeterminate in C; the source writes
  each of them before it reads it, and they are empty chains here. On failure the result
  is \<^verbatim>\<open>NULL\<close> and the old block is untouched.
\<close>

definition realloc :: "bool \<Rightarrow> 'r chain list option \<Rightarrow> nat \<Rightarrow> 'r chain list option" where
  "realloc ok t n =
     (if ok then
        (case t of
           None \<Rightarrow> Some (replicate n [])
         | Some slots \<Rightarrow> Some (take n slots @ replicate (n - length slots) []))
      else None)"

text \<open>\<^verbatim>\<open>table[i]\<close> as a value, and \<^verbatim>\<open>table[i] = c\<close>.\<close>

definition slot_get :: "'r chain list option \<Rightarrow> nat \<Rightarrow> 'r chain outcome" where
  "slot_get t i =
     (case t of
        None \<Rightarrow> Fault
      | Some slots \<Rightarrow> if i < length slots then Done (slots ! i) else Fault)"

definition slot_set :: "'r chain list option \<Rightarrow> nat \<Rightarrow> 'r chain \<Rightarrow> 'r chain list option outcome" where
  "slot_set t i c =
     (case t of
        None \<Rightarrow> Fault
      | Some slots \<Rightarrow> if i < length slots then Done (Some (slots[i := c])) else Fault)"

subsection \<open>hashmap\_grow\<close>

text \<open>
  The inner \<^verbatim>\<open>while (node)\<close> of \<^verbatim>\<open>hashmap_grow\<close>: every node of the chain is pushed
  on the front of \<open>b\<close> (upper half) when its hash has the bit \<open>len\<close>, on the front of
  \<open>a\<close> (lower half) otherwise.
\<close>

fun split_chain :: "nat \<Rightarrow> 'r chain \<Rightarrow> 'r chain \<Rightarrow> 'r chain \<Rightarrow> 'r chain \<times> 'r chain" where
  "split_chain l [] a b = (a, b)"
| "split_chain l (node # next) a b =
     (if hash node AND l \<noteq> 0 then split_chain l next a (node # b)
      else split_chain l next (node # a) b)"

text \<open>The \<^verbatim>\<open>for (i = 0; i < map->len; ++i)\<close> of \<^verbatim>\<open>hashmap_grow\<close>, from \<open>i\<close> on.\<close>

function grow_loop :: "nat \<Rightarrow> nat \<Rightarrow> 'r chain list option \<Rightarrow> 'r chain list option outcome" where
  "grow_loop l i t =
     (if i < l then
        (case slot_get t i of
           Fault \<Rightarrow> Fault
         | Done node \<Rightarrow>
             (case split_chain l node [] [] of
                (a, b) \<Rightarrow>
                  (case slot_set t i a of
                     Fault \<Rightarrow> Fault
                   | Done t1 \<Rightarrow>
                       (case slot_set t1 (i + l) b of
                          Fault \<Rightarrow> Fault
                        | Done t2 \<Rightarrow> grow_loop l (i + 1) t2))))
      else Done t)"
  by pat_completeness auto
termination
  by (relation "measure (\<lambda>(l, i, t). l - i)") auto

declare grow_loop.simps [simp del]

definition hashmap_grow :: "bool \<Rightarrow> ('k, 'r) hashmap \<Rightarrow> (int \<times> ('k, 'r) hashmap) outcome" where
  "hashmap_grow ok m =
     (case realloc ok (table m) (len m * 2) of
        None \<Rightarrow> Done (- 1, m)
      | Some newtable \<Rightarrow>
          (case grow_loop (len m) 0 (Some newtable) of
             Fault \<Rightarrow> Fault
           | Done t \<Rightarrow> Done (0, m\<lparr>table := t, len := len m * 2\<rparr>)))"

subsection \<open>hashmap\_shrink\<close>

text \<open>
  The \<^verbatim>\<open>else\<close> branch of the loop of \<^verbatim>\<open>hashmap_shrink\<close>: walk from \<open>prev\<close> to the last
  node of the chain and set its \<^verbatim>\<open>next\<close>. The chain is not empty there. The source
  changes the chain in place; with chains as values, the changed chain is written to
  the slot.
\<close>

fun append_chain :: "'r chain \<Rightarrow> 'r chain \<Rightarrow> 'r chain" where
  "append_chain [] next = next"
| "append_chain [prev] next = prev # next"
| "append_chain (prev # rest) next = prev # append_chain rest next"

function shrink_loop :: "nat \<Rightarrow> nat \<Rightarrow> 'r chain list option \<Rightarrow> 'r chain list option outcome" where
  "shrink_loop l i t =
     (if i < l then
        (case slot_get t i of
           Fault \<Rightarrow> Fault
         | Done prev \<Rightarrow>
             (case slot_get t (i + l) of
                Fault \<Rightarrow> Fault
              | Done next \<Rightarrow>
                  (case (if prev = [] then slot_set t i next
                         else slot_set t i (append_chain prev next)) of
                     Fault \<Rightarrow> Fault
                   | Done t1 \<Rightarrow> shrink_loop l (i + 1) t1)))
      else Done t)"
  by pat_completeness auto
termination
  by (relation "measure (\<lambda>(l, i, t). l - i)") auto

declare shrink_loop.simps [simp del]

definition hashmap_shrink :: "bool \<Rightarrow> ('k, 'r) hashmap \<Rightarrow> (int \<times> ('k, 'r) hashmap) outcome" where
  "hashmap_shrink ok m =
     (let m1 = m\<lparr>len := len m div 2\<rparr> in
      case shrink_loop (len m1) 0 (table m1) of
        Fault \<Rightarrow> Fault
      | Done t \<Rightarrow>
          (case realloc ok t (len m1) of
             None \<Rightarrow> Done (- 1, m1\<lparr>table := t\<rparr>)
           | Some newtable \<Rightarrow> Done (0, m1\<lparr>table := Some newtable\<rparr>)))"

subsection \<open>The interface\<close>

definition hashmap_init :: "bool \<Rightarrow> ('k \<Rightarrow> nat) \<Rightarrow> ('r hash_node \<Rightarrow> 'k \<Rightarrow> int) \<Rightarrow> ('k, 'r) hashmap" where
  "hashmap_init ok hash_func cmp_func =
     \<lparr>table = calloc ok MIN_SLOTS, len = MIN_SLOTS, count = 0,
      hashf = hash_func, cmp = cmp_func\<rparr>"

text \<open>The \<^verbatim>\<open>while (node)\<close> of \<^verbatim>\<open>hashmap_get\<close>: the first node of the chain that \<open>cmp\<close> accepts.\<close>

fun get_walk :: "('r hash_node \<Rightarrow> 'k \<Rightarrow> int) \<Rightarrow> 'k \<Rightarrow> 'r chain \<Rightarrow> 'r hash_node option" where
  "get_walk c key [] = None"
| "get_walk c key (node # next) =
     (if c node key \<noteq> 0 then Some node else get_walk c key next)"

definition hashmap_get :: "('k, 'r) hashmap \<Rightarrow> 'k \<Rightarrow> 'r hash_node option outcome" where
  "hashmap_get m key =
     (case slot_get (table m) (hashf m key AND (len m - 1)) of
        Fault \<Rightarrow> Fault
      | Done node \<Rightarrow> Done (get_walk (cmp m) key node))"

definition hashmap_insert ::
  "bool \<Rightarrow> ('k, 'r) hashmap \<Rightarrow> 'r hash_node \<Rightarrow> 'k \<Rightarrow> (int \<times> ('k, 'r) hashmap) outcome" where
  "hashmap_insert ok m node key =
     (let node1 = node\<lparr>hash := hashf m key\<rparr>;
          slot = hash node1 AND (len m - 1)
      in case slot_get (table m) slot of
           Fault \<Rightarrow> Fault
         | Done head \<Rightarrow>
             (case slot_set (table m) slot (node1 # head) of
                Fault \<Rightarrow> Fault
              | Done t \<Rightarrow>
                  (let m1 = m\<lparr>table := t, count := count m + 1\<rparr>
                   in if count m1 > len m1 * 3 then
                        (case hashmap_grow ok m1 of
                           Fault \<Rightarrow> Fault
                         | Done (r, m2) \<Rightarrow> Done (0, m2))
                      else Done (0, m1))))"

text \<open>
  The \<^verbatim>\<open>while (node)\<close> of \<^verbatim>\<open>hashmap_remove\<close>: the first node that \<open>cmp\<close> accepts, and
  the chain without it (the nodes before it keep their places).
\<close>

fun remove_walk ::
  "('r hash_node \<Rightarrow> 'k \<Rightarrow> int) \<Rightarrow> 'k \<Rightarrow> 'r chain \<Rightarrow> ('r hash_node \<times> 'r chain) option" where
  "remove_walk c key [] = None"
| "remove_walk c key (node # next) =
     (if c node key \<noteq> 0 then Some (node, next)
      else (case remove_walk c key next of
              None \<Rightarrow> None
            | Some (found, rest) \<Rightarrow> Some (found, node # rest)))"

definition hashmap_remove ::
  "bool \<Rightarrow> ('k, 'r) hashmap \<Rightarrow> 'k \<Rightarrow> ('r hash_node option \<times> ('k, 'r) hashmap) outcome" where
  "hashmap_remove ok m key =
     (let slot = hashf m key AND (len m - 1)
      in case slot_get (table m) slot of
           Fault \<Rightarrow> Fault
         | Done head \<Rightarrow>
             (case remove_walk (cmp m) key head of
                None \<Rightarrow> Done (None, m)
              | Some (node, rest) \<Rightarrow>
                  (case slot_set (table m) slot rest of
                     Fault \<Rightarrow> Fault
                   | Done t \<Rightarrow>
                       (let m1 = m\<lparr>table := t, count := count m - 1\<rparr>
                        in if count m1 < len m1 div 4 \<and> len m1 > MIN_SLOTS then
                             (case hashmap_shrink ok m1 of
                                Fault \<Rightarrow> Fault
                              | Done (r, m2) \<Rightarrow> Done (Some node, m2))
                           else Done (Some node, m1)))))"

subsection \<open>The test harness of the source\<close>

text \<open>
  \<^verbatim>\<open>struct test { struct hash_node node; int i, j; }\<close> with \<^verbatim>\<open>hash_test\<close> and
  \<^verbatim>\<open>cmp_test\<close>: the key is \<open>i\<close>, the hash is the key, \<open>cmp\<close> compares \<open>i\<close> with the key.
\<close>

definition hash_test :: "nat \<Rightarrow> nat" where
  "hash_test key = key"

definition cmp_test :: "(nat \<times> nat) hash_node \<Rightarrow> nat \<Rightarrow> int" where
  "cmp_test node key = (if fst (container node) = key then 1 else 0)"

definition test_node :: "nat \<Rightarrow> nat \<Rightarrow> (nat \<times> nat) hash_node" where
  "test_node i j = \<lparr>hash = 0, container = (i, j)\<rparr>"

section \<open>Sequences of calls\<close>

text \<open>
  A call of the interface that changes the table, with the outcome of the one allocation
  it may attempt. \<open>run\<close> performs a list of calls in order and stops at a fault.
\<close>

datatype ('k, 'r) call = Insert bool "'r hash_node" 'k | Remove bool 'k

fun step :: "('k, 'r) hashmap \<Rightarrow> ('k, 'r) call \<Rightarrow> ('k, 'r) hashmap outcome" where
  "step m (Insert ok node key) =
     (case hashmap_insert ok m node key of Fault \<Rightarrow> Fault | Done (r, m') \<Rightarrow> Done m')"
| "step m (Remove ok key) =
     (case hashmap_remove ok m key of Fault \<Rightarrow> Fault | Done (r, m') \<Rightarrow> Done m')"

fun run :: "('k, 'r) hashmap \<Rightarrow> ('k, 'r) call list \<Rightarrow> ('k, 'r) hashmap outcome" where
  "run m [] = Done m"
| "run m (c # cs) = (case step m c of Fault \<Rightarrow> Fault | Done m' \<Rightarrow> run m' cs)"

text \<open>
  A list of insertions (allocation outcome, node, key) as calls. A call fails to grow
  the table when it is an insertion that takes \<open>count\<close> above \<open>len * 3\<close> and whose
  reallocation fails; \<open>grows_succeed\<close> says that no call of the list does, each in the
  table left by the calls before it.
\<close>

definition inserts :: "(bool \<times> 'r hash_node \<times> 'k) list \<Rightarrow> ('k, 'r) call list" where
  "inserts xs = map (\<lambda>(ok, node, key). Insert ok node key) xs"

fun grow_fails :: "('k, 'r) hashmap \<Rightarrow> ('k, 'r) call \<Rightarrow> bool" where
  "grow_fails m (Insert ok node key) = (len m * 3 < count m + 1 \<and> \<not> ok)"
| "grow_fails m (Remove ok key) = False"

fun grows_succeed :: "('k, 'r) hashmap \<Rightarrow> ('k, 'r) call list \<Rightarrow> bool" where
  "grows_succeed m [] = True"
| "grows_succeed m (c # cs) =
     (\<not> grow_fails m c \<and>
      (case step m c of Fault \<Rightarrow> True | Done m' \<Rightarrow> grows_succeed m' cs))"

section \<open>Describing table states\<close>

text \<open>
  The buckets of a table are its first \<open>len\<close> slots; its links are the nodes of all
  its buckets. A table is well formed (\<open>wf\<close>) when \<open>len\<close> is a power of two and at
  least \<open>MIN_SLOTS\<close>, the bucket array has \<open>len\<close> allocated slots, every node sits in the
  bucket that the low bits of its cached hash select, and \<open>count\<close> is the number of links.
\<close>

definition buckets :: "('k, 'r) hashmap \<Rightarrow> 'r chain list" where
  "buckets m = (case table m of None \<Rightarrow> [] | Some slots \<Rightarrow> take (len m) slots)"

definition links :: "('k, 'r) hashmap \<Rightarrow> 'r chain" where
  "links m = concat (buckets m)"

definition wf :: "('k, 'r) hashmap \<Rightarrow> bool" where
  "wf m \<longleftrightarrow>
     (\<exists>k. len m = 2 ^ k) \<and> MIN_SLOTS \<le> len m \<and> length (buckets m) = len m \<and>
     (\<forall>i < len m. \<forall>node \<in> set (buckets m ! i). hash node AND (len m - 1) = i) \<and>
     count m = length (links m)"

text \<open>
  What \<open>hashmap_grow\<close> makes of one chain when \<open>len\<close> is \<open>l\<close>: the nodes that stay
  (\<open>keep\<close>, bit \<open>l\<close> of the hash clear) and the nodes that move to the upper half
  (\<open>move\<close>, bit set), each in the reverse of their order in the chain; and what it makes
  of the bucket array (\<open>grown\<close>). \<open>folded\<close> is what \<open>hashmap_shrink\<close> makes of a bucket
  array when the halved \<open>len\<close> is \<open>h\<close>.
\<close>

definition keep :: "nat \<Rightarrow> 'r chain \<Rightarrow> 'r chain" where
  "keep l c = rev (filter (\<lambda>node. hash node AND l = 0) c)"

definition move :: "nat \<Rightarrow> 'r chain \<Rightarrow> 'r chain" where
  "move l c = rev (filter (\<lambda>node. hash node AND l \<noteq> 0) c)"

definition grown :: "nat \<Rightarrow> 'r chain list \<Rightarrow> 'r chain list" where
  "grown l b = map (keep l) (take l b) @ map (move l) (take l b)"

definition folded :: "nat \<Rightarrow> 'r chain list \<Rightarrow> 'r chain list" where
  "folded h b = map (\<lambda>j. b ! j @ b ! (j + h)) [0..<h]"

text \<open>
  The bucket of a key, and a node as \<open>hashmap_insert\<close> stores it (with the hash of the key
  cached). \<open>linked\<close> is the table after the first five statements of \<open>hashmap_insert\<close>
  (the node is at the head of its bucket and \<open>count\<close> is incremented, before the test for
  growth); \<open>unlinked\<close> is the table after \<open>hashmap_remove\<close> has cut a node out of the
  chain of the key's bucket, leaving \<open>rest\<close>, and decremented \<open>count\<close>. \<open>grown_map\<close> and
  \<open>shrunk_map\<close> are the tables that \<open>hashmap_grow\<close> (its reallocation succeeding) and
  \<open>hashmap_shrink\<close> leave. The lemmas of the next section prove that the functions of
  the source compute these tables.
\<close>

definition slot_of :: "('k, 'r) hashmap \<Rightarrow> 'k \<Rightarrow> nat" where
  "slot_of m key = hashf m key AND (len m - 1)"

definition stored :: "('k, 'r) hashmap \<Rightarrow> 'r hash_node \<Rightarrow> 'k \<Rightarrow> 'r hash_node" where
  "stored m node key = node\<lparr>hash := hashf m key\<rparr>"

definition linked :: "('k, 'r) hashmap \<Rightarrow> 'r hash_node \<Rightarrow> 'k \<Rightarrow> ('k, 'r) hashmap" where
  "linked m node key =
     m\<lparr>table := map_option (\<lambda>slots. slots[slot_of m key := stored m node key # slots ! slot_of m key])
                   (table m),
       count := count m + 1\<rparr>"

definition unlinked :: "('k, 'r) hashmap \<Rightarrow> 'k \<Rightarrow> 'r chain \<Rightarrow> ('k, 'r) hashmap" where
  "unlinked m key rest =
     m\<lparr>table := map_option (\<lambda>slots. slots[slot_of m key := rest]) (table m),
       count := count m - 1\<rparr>"

definition grown_map :: "('k, 'r) hashmap \<Rightarrow> ('k, 'r) hashmap" where
  "grown_map m = m\<lparr>table := map_option (grown (len m)) (table m), len := len m * 2\<rparr>"

definition shrunk_map :: "bool \<Rightarrow> ('k, 'r) hashmap \<Rightarrow> ('k, 'r) hashmap" where
  "shrunk_map ok m =
     m\<lparr>len := len m div 2,
       table := map_option (\<lambda>slots. if ok then folded (len m div 2) slots
                                     else folded (len m div 2) slots @ drop (len m div 2) slots)
                  (table m)\<rparr>"

subsection \<open>Concrete tables\<close>

text \<open>
  The first \<open>n\<close> insertions of the test harness of the source (\<^verbatim>\<open>main\<close>): key \<open>i\<close>,
  with a record whose \<open>j\<close> is \<open>i + 123\<close>, every allocation succeeding.
\<close>

definition entries :: "nat \<Rightarrow> (bool \<times> (nat \<times> nat) hash_node \<times> nat) list" where
  "entries n = map (\<lambda>i. (True, test_node i (i + 123), i)) [0..<n]"

definition harness :: "nat \<Rightarrow> (nat, nat \<times> nat) call list" where
  "harness n = inserts (entries n)"

text \<open>A function applied to the result of a call that did not fault.\<close>

fun outcome_map :: "('a \<Rightarrow> 'b) \<Rightarrow> 'a outcome \<Rightarrow> 'b outcome" where
  "outcome_map f Fault = Fault"
| "outcome_map f (Done x) = Done (f x)"

text \<open>
  The removals of the test harness: with \<open>n\<close> keys inserted, the keys \<open>n - 1\<close> down to \<open>k\<close>.
\<close>

definition drain :: "nat \<Rightarrow> nat \<Rightarrow> (nat, nat \<times> nat) call list" where
  "drain n k = map (\<lambda>i. Remove True (n - 1 - i)) [0..<n - k]"

text \<open>
  The keys of a list of insertions are pairwise distinct for \<open>cmp\<close>: the link of
  insertion \<open>i\<close>, as stored (with the hash of its key cached), is accepted with the key
  of insertion \<open>j\<close> exactly when \<open>i = j\<close>.
\<close>

definition distinct_keys ::
  "('k \<Rightarrow> nat) \<Rightarrow> ('r hash_node \<Rightarrow> 'k \<Rightarrow> int) \<Rightarrow> (bool \<times> 'r hash_node \<times> 'k) list \<Rightarrow> bool" where
  "distinct_keys h c xs \<longleftrightarrow>
     (\<forall>i < length xs. \<forall>j < length xs.
        (c ((fst (snd (xs ! i)))\<lparr>hash := h (snd (snd (xs ! i)))\<rparr>) (snd (snd (xs ! j))) \<noteq> 0) = (i = j))"

text \<open>
  The table of the test harness after its first 48 insertions: bucket \<open>i\<close> holds the
  links of the keys \<open>i + 32\<close>, \<open>i + 16\<close> and \<open>i\<close>, the last inserted first. It is full:
  \<open>count = len * 3\<close>.
\<close>

definition harness_node :: "nat \<Rightarrow> (nat \<times> nat) hash_node" where
  "harness_node i = \<lparr>hash = i, container = (i, i + 123)\<rparr>"

definition crowded :: "(nat, nat \<times> nat) hashmap" where
  "crowded =
     \<lparr>table = Some (map (\<lambda>i. [harness_node (i + 32), harness_node (i + 16), harness_node i])
                       [0..<16]),
      len = 16, count = 48, hashf = hash_test, cmp = cmp_test\<rparr>"

text \<open>
  What decides the next resize: \<open>len\<close> and \<open>count\<close>. A grow is pending when the next
  insertion will call \<open>hashmap_grow\<close>; a shrink is pending when \<open>count\<close> is already below
  \<open>len / 4\<close> with \<open>len\<close> above \<open>MIN_SLOTS\<close>.
\<close>

definition capacity :: "('k, 'r) hashmap \<Rightarrow> nat \<times> nat" where
  "capacity m = (len m, count m)"

definition grow_pending :: "('k, 'r) hashmap \<Rightarrow> bool" where
  "grow_pending m \<longleftrightarrow> len m * 3 < count m + 1"

definition shrink_pending :: "('k, 'r) hashmap \<Rightarrow> bool" where
  "shrink_pending m \<longleftrightarrow> count m < len m div 4 \<and> MIN_SLOTS < len m"

text \<open>\<open>hashmap_get\<close> on the table that a sequence of calls leaves.\<close>

fun then_get :: "('k, 'r) hashmap outcome \<Rightarrow> 'k \<Rightarrow> 'r hash_node option outcome" where
  "then_get Fault key = Fault"
| "then_get (Done m) key = hashmap_get m key"

section \<open>Lemmas about the model\<close>

lemma split_chain_eq:
  "split_chain l c a b = (keep l c @ a, move l c @ b)"
  by (induction c arbitrary: a b) (simp_all add: keep_def move_def)

lemma grow_loop_nth:
  assumes "2 * l \<le> length slots" "i \<le> l"
  shows "\<exists>slots'. grow_loop l i (Some slots) = Done (Some slots') \<and> length slots' = length slots \<and>
          (\<forall>j. slots' ! j = (if i \<le> j \<and> j < l then keep l (slots ! j)
                             else if l + i \<le> j \<and> j < 2 * l then move l (slots ! (j - l))
                             else slots ! j))"
  using assms
proof (induction "l - i" arbitrary: i slots)
  case 0
  then have "i = l" by simp
  then show ?case by (auto simp: grow_loop.simps[of l l])
next
  case (Suc n)
  then have True: "i < l" by simp
  define s2 where "s2 = slots[i := keep l (slots ! i), i + l := move l (slots ! i)]"
  have il: "i < length slots" "i + l < length slots" using True Suc.prems by auto
  have step: "grow_loop l i (Some slots) = grow_loop l (i + 1) (Some s2)"
    using True il
    by (subst grow_loop.simps) (simp add: slot_get_def slot_set_def split_chain_eq s2_def)
  have "\<exists>slots'. grow_loop l (i + 1) (Some s2) = Done (Some slots') \<and> length slots' = length s2 \<and>
        (\<forall>j. slots' ! j = (if i + 1 \<le> j \<and> j < l then keep l (s2 ! j)
                           else if l + (i + 1) \<le> j \<and> j < 2 * l then move l (s2 ! (j - l))
                           else s2 ! j))"
    apply (rule Suc.hyps(1))
    using True Suc.hyps(2) Suc.prems by (simp_all add: s2_def)
  then obtain slots' where r: "grow_loop l (i + 1) (Some s2) = Done (Some slots')"
    "length slots' = length s2"
    "\<And>j. slots' ! j = (if i + 1 \<le> j \<and> j < l then keep l (s2 ! j)
                           else if l + (i + 1) \<le> j \<and> j < 2 * l then move l (s2 ! (j - l))
                           else s2 ! j)" by blast
  have "slots' ! j = (if i \<le> j \<and> j < l then keep l (slots ! j)
                           else if l + i \<le> j \<and> j < 2 * l then move l (slots ! (j - l))
                           else slots ! j)" for j
  proof -
    consider "j = i" | "j = i + l" | "j \<noteq> i" "j \<noteq> i + l" by blast
    then show ?thesis
    proof cases
      case 1
      then show ?thesis unfolding r(3) s2_def using True il by (simp add: nth_list_update)
    next
      case 2
      then show ?thesis unfolding r(3) s2_def using True il by (simp add: nth_list_update)
    next
      case 3
      then have "j - l \<noteq> i \<or> j < l" by arith
      with 3 show ?thesis unfolding r(3) s2_def using True il
        by (auto simp: nth_list_update)
    qed
  qed
  then show ?case using r step by (simp add: s2_def)
qed

lemma append_chain_eq: "append_chain prev nxt = prev @ nxt"
  by (induction prev nxt rule: append_chain.induct) simp_all

lemma shrink_loop_nth:
  assumes "2 * l \<le> length slots" "i \<le> l"
  shows "\<exists>slots'. shrink_loop l i (Some slots) = Done (Some slots') \<and> length slots' = length slots \<and>
          (\<forall>j. slots' ! j = (if i \<le> j \<and> j < l then slots ! j @ slots ! (j + l) else slots ! j))"
  using assms
proof (induction "l - i" arbitrary: i slots)
  case 0
  then have "i = l" by simp
  then show ?case by (auto simp: shrink_loop.simps[of l l])
next
  case (Suc n)
  then have True: "i < l" by simp
  define s1 where "s1 = slots[i := slots ! i @ slots ! (i + l)]"
  have il: "i < length slots" "i + l < length slots" using True Suc.prems by auto
  have step: "shrink_loop l i (Some slots) = shrink_loop l (i + 1) (Some s1)"
    using True il
    by (subst shrink_loop.simps) (simp add: slot_get_def slot_set_def append_chain_eq s1_def)
  have "\<exists>slots'. shrink_loop l (i + 1) (Some s1) = Done (Some slots') \<and> length slots' = length s1 \<and>
        (\<forall>j. slots' ! j = (if i + 1 \<le> j \<and> j < l then s1 ! j @ s1 ! (j + l) else s1 ! j))"
    apply (rule Suc.hyps(1))
    using True Suc.hyps(2) Suc.prems by (simp_all add: s1_def)
  then obtain slots' where r: "shrink_loop l (i + 1) (Some s1) = Done (Some slots')"
    "length slots' = length s1"
    "\<And>j. slots' ! j = (if i + 1 \<le> j \<and> j < l then s1 ! j @ s1 ! (j + l) else s1 ! j)"
    by blast
  have "slots' ! j = (if i \<le> j \<and> j < l then slots ! j @ slots ! (j + l) else slots ! j)" for j
    unfolding r(3) s1_def using True il by (auto simp: nth_list_update)
  then show ?case using r step by (simp add: s1_def)
qed

subsection \<open>Bits\<close>

lemma slot_mod: "h AND (2 ^ k - 1) = h mod 2 ^ (k::nat)" for h :: nat
  by (metis mask_eq_exp_minus_1 take_bit_eq_mask take_bit_eq_mod)

lemma slot_less: "h AND (2 ^ k - 1) < 2 ^ (k::nat)" for h :: nat
  unfolding slot_mod by simp

lemma slot_double:
  "h AND (2 * 2 ^ k - 1) = (h AND (2 ^ k - 1)) + (if h AND 2 ^ k \<noteq> 0 then 2 ^ k else 0)" for h :: nat
proof -
  have "h AND (2 ^ Suc k - 1) = take_bit (Suc k) h"
    by (metis mask_eq_exp_minus_1 take_bit_eq_mask)
  also have "\<dots> = 2 ^ k * of_bool (bit h k) + take_bit k h"
    by (rule take_bit_Suc_from_most)
  also have "take_bit k h = h AND (2 ^ k - 1)"
    by (metis mask_eq_exp_minus_1 take_bit_eq_mask)
  finally show ?thesis
    by (simp add: and_exp_eq_0_iff_not_bit)
qed

lemma slot_halve:
  "h AND (2 ^ k - 1) = (h AND (2 * 2 ^ k - 1)) mod 2 ^ k" for h :: nat
proof -
  have small: "(h AND (2 ^ k - 1)) mod 2 ^ k = h AND (2 ^ k - 1)"
    using slot_less[of h k] by simp
  show ?thesis
  proof (cases "h AND 2 ^ k = 0")
    case True
    then show ?thesis unfolding slot_double[of h k] using small by simp
  next
    case False
    then have "h AND (2 * 2 ^ k - 1) = (h AND (2 ^ k - 1)) + 2 ^ k"
      unfolding slot_double[of h k] by simp
    then show ?thesis using small by (simp only: mod_add_self2)
  qed
qed

subsection \<open>grow\<close>

lemma mset_keep_move: "mset (keep l c) + mset (move l c) = mset c"
  unfolding keep_def move_def
  by (induction c) simp_all

lemma mset_concat_keep_move:
  "mset (concat (map (keep l) b)) + mset (concat (map (move l) b)) = mset (concat b)"
proof (induction b)
  case Nil
  show ?case by simp
next
  case (Cons c b)
  have "mset (concat (map (keep l) (c # b))) + mset (concat (map (move l) (c # b))) =
        (mset (keep l c) + mset (move l c)) +
        (mset (concat (map (keep l) b)) + mset (concat (map (move l) b)))"
    by (simp add: ac_simps)
  then show ?case by (simp add: Cons.IH mset_keep_move)
qed

lemma hashmap_grow_fail: "hashmap_grow False m = Done (- 1, m)"
  by (simp add: hashmap_grow_def realloc_def)

lemma hashmap_grow_ok:
  assumes "table m = Some slots" "len m \<le> length slots"
  shows "hashmap_grow True m =
           Done (0, m\<lparr>table := Some (grown (len m) slots), len := len m * 2\<rparr>)"
proof -
  define l where "l = len m"
  define s0 where "s0 = take (l * 2) slots @ replicate (l * 2 - length slots) []"
  have l0: "length s0 = 2 * l" using assms(2) by (auto simp: s0_def l_def)
  have s0: "s0 ! j = slots ! j" if "j < l" for j
    using that assms(2) by (simp add: s0_def l_def nth_append)
  obtain s' where s': "grow_loop l 0 (Some s0) = Done (Some s')" "length s' = length s0"
    "\<And>j. s' ! j = (if 0 \<le> j \<and> j < l then keep l (s0 ! j)
                    else if l + 0 \<le> j \<and> j < 2 * l then move l (s0 ! (j - l)) else s0 ! j)"
    using grow_loop_nth[of l s0 0] l0 by auto
  have "s' = grown l slots"
  proof (rule nth_equalityI)
    show "length s' = length (grown l slots)"
      using s'(2) l0 assms(2) by (simp add: grown_def l_def)
  next
    fix j assume "j < length s'"
    then have j: "j < 2 * l" using s'(2) l0 by simp
    show "s' ! j = grown l slots ! j"
    proof (cases "j < l")
      case True
      then show ?thesis using assms(2) s0[of j]
        by (simp add: s'(3) grown_def nth_append l_def)
    next
      case False
      then have "j - l < l" using j by simp
      then show ?thesis using False j assms(2) s0[of "j - l"]
        by (simp add: s'(3) grown_def nth_append l_def)
    qed
  qed
  then show ?thesis
    using s'(1) by (simp add: hashmap_grow_def realloc_def assms(1) l_def s0_def)
qed

lemma length_grown: "l \<le> length b \<Longrightarrow> length (grown l b) = 2 * l"
  by (simp add: grown_def)

lemma grown_take: "grown l (take l b) = grown l b"
  by (simp add: grown_def)

lemma mset_concat_grown: "mset (concat (grown l b)) = mset (concat (take l b))"
  by (simp add: grown_def mset_concat_keep_move)

lemma grown_nth_low: "j < l \<Longrightarrow> l \<le> length b \<Longrightarrow> grown l b ! j = keep l (b ! j)"
  by (simp add: grown_def nth_append)

lemma grown_nth_high: "j < l \<Longrightarrow> l \<le> length b \<Longrightarrow> grown l b ! (j + l) = move l (b ! j)"
  by (simp add: grown_def nth_append)

lemma buckets_Some: "table m = Some slots \<Longrightarrow> buckets m = take (len m) slots"
  by (simp add: buckets_def)

lemma wf_table: "wf m \<Longrightarrow> \<exists>slots. table m = Some slots \<and> len m \<le> length slots"
  by (auto simp: wf_def buckets_def MIN_SLOTS_def split: option.splits)

lemma wf_grown:
  assumes "wf m" "table m = Some slots"
  shows "wf (m\<lparr>table := Some (grown (len m) slots), len := len m * 2\<rparr>)"
proof -
  define l where "l = len m"
  from assms obtain k where k: "l = 2 ^ k" and min: "MIN_SLOTS \<le> l"
    and le: "l \<le> length slots"
    and idx: "\<And>i node. i < l \<Longrightarrow> node \<in> set (slots ! i) \<Longrightarrow> hash node AND (l - 1) = i"
    and cnt: "count m = length (concat (take l slots))"
    by (auto simp: wf_def buckets_def links_def l_def)
  let ?m' = "m\<lparr>table := Some (grown l slots), len := l * 2\<rparr>"
  have b': "buckets ?m' = grown l slots"
    using le by (simp add: buckets_def length_grown)
  have 1: "\<exists>k. len ?m' = 2 ^ k" using k by (auto intro: exI[of _ "Suc k"])
  have 2: "MIN_SLOTS \<le> len ?m'" using min by simp
  have 3: "length (buckets ?m') = len ?m'" using le by (simp add: b' length_grown)
  have 4: "hash node AND (len ?m' - 1) = i" if "i < len ?m'" "node \<in> set (buckets ?m' ! i)" for i node
  proof (cases "i < l")
    case True
    with that le have "node \<in> set (slots ! i)" "hash node AND l = 0"
      by (auto simp: b' grown_nth_low keep_def)
    with idx[OF True] show ?thesis
      using slot_double[of "hash node" k] by (simp add: k mult.commute)
  next
    case False
    then have i: "i - l < l" "i = (i - l) + l" using that(1) by auto
    with that le have "node \<in> set (slots ! (i - l))" "hash node AND l \<noteq> 0"
      using grown_nth_high[of "i - l" l slots] by (auto simp: b' move_def)
    with idx[OF i(1)] show ?thesis
      using slot_double[of "hash node" k] i by (simp add: k mult.commute)
  qed
  have 5: "count ?m' = length (links ?m')"
    using arg_cong[OF mset_concat_grown[of l slots], of size]
    by (simp add: links_def b' cnt)
  show ?thesis
    unfolding l_def[symmetric] wf_def using 1 2 3 4 5 by blast
qed

subsection \<open>shrink\<close>

lemma length_folded: "length (folded h b) = h"
  by (simp add: folded_def)

lemma folded_nth: "j < h \<Longrightarrow> folded h b ! j = b ! j @ b ! (j + h)"
  by (simp add: folded_def)

lemma folded_zip:
  assumes "2 * h \<le> length b"
  shows "folded h b = map (\<lambda>(x, y). x @ y) (zip (take h b) (take h (drop h b)))"
  using assms by (intro nth_equalityI) (auto simp: folded_def add.commute)

lemma mset_concat_zip:
  "length a = length b \<Longrightarrow>
   mset (concat (map (\<lambda>(x, y). x @ y) (zip a b))) = mset (concat a) + mset (concat b)"
  by (induction a b rule: list_induct2) simp_all

lemma mset_concat_folded:
  assumes "2 * h \<le> length b"
  shows "mset (concat (folded h b)) = mset (concat (take (2 * h) b))"
proof -
  have "take (2 * h) b = take h b @ take h (drop h b)"
    by (simp add: take_add mult_2)
  moreover have "length (take h b) = length (take h (drop h b))"
    using assms by simp
  ultimately show ?thesis
    using assms by (simp add: folded_zip mset_concat_zip)
qed

lemma hashmap_shrink_eq:
  assumes "table m = Some slots" "len m \<le> length slots"
  shows "hashmap_shrink ok m =
           Done (if ok then 0 else - 1,
                 m\<lparr>len := len m div 2,
                   table := Some (if ok then folded (len m div 2) slots
                                  else folded (len m div 2) slots @ drop (len m div 2) slots)\<rparr>)"
proof -
  define h where "h = len m div 2"
  have h2: "2 * h \<le> length slots" using assms(2) by (simp add: h_def)
  obtain s' where s': "shrink_loop h 0 (Some slots) = Done (Some s')" "length s' = length slots"
    "\<And>j. s' ! j = (if 0 \<le> j \<and> j < h then slots ! j @ slots ! (j + h) else slots ! j)"
    using shrink_loop_nth[of h slots 0] h2 by auto
  have eq: "s' = folded h slots @ drop h slots"
  proof (rule nth_equalityI)
    show "length s' = length (folded h slots @ drop h slots)"
      using s'(2) h2 by (simp add: length_folded)
  next
    fix j assume "j < length s'"
    then show "s' ! j = (folded h slots @ drop h slots) ! j"
      using h2 s'(2) by (simp add: s'(3) nth_append length_folded folded_nth)
  qed
  have "take h s' @ replicate (h - length s') [] = folded h slots"
    using h2 by (simp add: eq length_folded)
  then show ?thesis
    using s'(1)
    by (simp add: hashmap_shrink_def Let_def realloc_def assms(1) h_def[symmetric] eq)
qed

lemma wf_shrunk:
  assumes "wf m" "table m = Some slots" "MIN_SLOTS < len m"
    and t': "t' = folded (len m div 2) slots \<or> t' = folded (len m div 2) slots @ drop (len m div 2) slots"
  shows "wf (m\<lparr>len := len m div 2, table := Some t'\<rparr>)"
proof -
  define l where "l = len m"
  define h where "h = l div 2"
  from assms obtain k where k: "l = 2 ^ k" and min: "MIN_SLOTS < l"
    and le: "l \<le> length slots"
    and idx: "\<And>i node. i < l \<Longrightarrow> node \<in> set (slots ! i) \<Longrightarrow> hash node AND (l - 1) = i"
    and cnt: "count m = length (concat (take l slots))"
    by (auto simp: wf_def buckets_def links_def l_def)
  from k min have "k \<noteq> 0" by (auto simp: MIN_SLOTS_def intro: ccontr)
  then obtain k' where k': "k = Suc k'" by (cases k) auto
  then have h: "h = 2 ^ k'" "l = 2 * h" by (simp_all add: h_def k)
  let ?m' = "m\<lparr>len := h, table := Some t'\<rparr>"
  have b': "buckets ?m' = folded h slots"
    using t' by (auto simp: buckets_def length_folded h_def l_def)
  have 1: "\<exists>k. len ?m' = 2 ^ k" using h by auto
  have "(2::nat) ^ 3 < 2 ^ k'" using min h by (simp add: MIN_SLOTS_def)
  then have "3 < k'" by (simp only: power_strict_increasing_iff)
  then have "(2::nat) ^ 4 \<le> 2 ^ k'" by (intro power_increasing) simp_all
  then have 2: "MIN_SLOTS \<le> len ?m'" using h by (simp add: MIN_SLOTS_def)
  have 3: "length (buckets ?m') = len ?m'" by (simp add: b' length_folded)
  have 4: "hash node AND (len ?m' - 1) = i" if "i < len ?m'" "node \<in> set (buckets ?m' ! i)" for i node
  proof -
    from that have i: "i < h" by simp
    with that have "node \<in> set (slots ! i) \<or> node \<in> set (slots ! (i + h))"
      by (auto simp: b' folded_nth)
    then have "hash node AND (l - 1) = i \<or> hash node AND (l - 1) = i + h"
      using idx[of i node] idx[of "i + h" node] i h(2) by auto
    then have "(hash node AND (2 * 2 ^ k' - 1)) mod 2 ^ k' = i"
      using i h by auto
    then show ?thesis using slot_halve[of "hash node" k'] h by simp
  qed
  have 5: "count ?m' = length (links ?m')"
    using arg_cong[OF mset_concat_folded[of h slots], of size] le h(2)
    by (simp add: links_def b' cnt)
  show ?thesis
    unfolding l_def[symmetric] h_def[symmetric] wf_def using 1 2 3 4 5 by blast
qed

subsection \<open>chains\<close>

lemma mset_concat_update:
  "i < length b \<Longrightarrow> mset (concat (b[i := x])) + mset (b ! i) = mset (concat b) + mset x"
proof (induction b arbitrary: i)
  case Nil
  then show ?case by simp
next
  case (Cons c b)
  show ?case
  proof (cases i)
    case 0
    then show ?thesis by simp
  next
    case (Suc j)
    with Cons.prems have "j < length b" by simp
    from Cons.IH[OF this] show ?thesis
      by (simp add: Suc ac_simps)
  qed
qed

lemma get_walk_find: "get_walk c key chain = find (\<lambda>node. c node key \<noteq> 0) chain"
  by (induction chain) simp_all

lemma remove_walk_None: "remove_walk c key chain = None \<longleftrightarrow> (\<forall>node \<in> set chain. c node key = 0)"
  by (induction chain) (auto split: option.splits)

lemma remove_walk_append:
  "(\<forall>node \<in> set pre. c node key = 0) \<Longrightarrow> c found key \<noteq> 0 \<Longrightarrow>
   remove_walk c key (pre @ found # post) = Some (found, pre @ post)"
  by (induction pre) simp_all

lemma remove_walk_SomeD:
  "remove_walk c key chain = Some (found, rest) \<Longrightarrow>
     \<exists>pre post. chain = pre @ found # post \<and> rest = pre @ post \<and>
                (\<forall>node \<in> set pre. c node key = 0) \<and> c found key \<noteq> 0"
proof (induction chain arbitrary: rest)
  case Nil
  then show ?case by simp
next
  case (Cons x xs)
  show ?case
  proof (cases "c x key \<noteq> 0")
    case True
    with Cons.prems have "x = found" "rest = xs" by simp_all
    with True show ?thesis by (intro exI[of _ "[]"] exI[of _ xs]) simp
  next
    case False
    with Cons.prems obtain rest' where r: "remove_walk c key xs = Some (found, rest')"
      "rest = x # rest'" by (auto split: option.splits)
    from Cons.IH[OF r(1)] obtain pre post where "xs = pre @ found # post" "rest' = pre @ post"
      "\<forall>node \<in> set pre. c node key = 0" "c found key \<noteq> 0" by blast
    with False r(2) show ?thesis by (intro exI[of _ "x # pre"] exI[of _ post]) simp
  qed
qed


lemma remove_walk_mset:
  "remove_walk c key chain = Some (found, rest) \<Longrightarrow> mset chain = add_mset found (mset rest)"
  by (auto dest: remove_walk_SomeD)

subsection \<open>states\<close>

lemma wf_slot_of:
  assumes "wf m"
  shows "slot_of m key < len m"
proof -
  from assms obtain k where "len m = 2 ^ k" by (auto simp: wf_def)
  then show ?thesis
    using slot_less[of "hashf m key" k] by (simp add: slot_of_def)
qed

lemma wf_buckets_nth:
  "wf m \<Longrightarrow> table m = Some slots \<Longrightarrow> i < len m \<Longrightarrow> buckets m ! i = slots ! i"
  by (simp add: buckets_def)

lemma hashmap_grow_wf:
  assumes "wf m"
  shows "hashmap_grow ok m = (if ok then Done (0, grown_map m) else Done (- 1, m))"
proof -
  from wf_table[OF assms] obtain slots where "table m = Some slots" "len m \<le> length slots"
    by blast
  then show ?thesis
    using hashmap_grow_ok[of m slots] by (cases ok) (simp_all add: hashmap_grow_fail grown_map_def)
qed

lemma wf_grown_map: "wf m \<Longrightarrow> wf (grown_map m)"
  using wf_grown[of m] wf_table[of m] by (auto simp: grown_map_def)

lemma buckets_grown_map: "wf m \<Longrightarrow> buckets (grown_map m) = grown (len m) (buckets m)"
  using wf_table[of m]
  by (auto simp: grown_map_def buckets_def length_grown grown_take)

lemma links_grown_map: "wf m \<Longrightarrow> mset (links (grown_map m)) = mset (links m)"
  by (simp add: links_def buckets_grown_map mset_concat_grown) (simp add: wf_def)

lemma hashmap_shrink_wf:
  assumes "wf m"
  shows "hashmap_shrink ok m = Done (if ok then 0 else - 1, shrunk_map ok m)"
proof -
  from wf_table[OF assms] obtain slots where "table m = Some slots" "len m \<le> length slots"
    by blast
  then show ?thesis
    using hashmap_shrink_eq[of m slots ok] by (simp add: shrunk_map_def)
qed

lemma wf_shrunk_map: "wf m \<Longrightarrow> MIN_SLOTS < len m \<Longrightarrow> wf (shrunk_map ok m)"
  using wf_shrunk[of m] wf_table[of m] by (auto simp: shrunk_map_def)

lemma buckets_shrunk_map:
  "wf m \<Longrightarrow> buckets (shrunk_map ok m) = folded (len m div 2) (buckets m)"
proof -
  assume wf: "wf m"
  from wf_table[OF wf] obtain slots where s: "table m = Some slots" "len m \<le> length slots"
    by blast
  have "folded (len m div 2) (take (len m) slots) = folded (len m div 2) slots"
    by (simp add: folded_def)
  then show ?thesis
    using s by (simp add: shrunk_map_def buckets_def length_folded)
qed

lemma links_shrunk_map:
  assumes "wf m"
  shows "mset (links (shrunk_map ok m)) = mset (links m)"
proof -
  from assms obtain k where k: "len m = 2 ^ k" and "MIN_SLOTS \<le> len m"
    by (auto simp: wf_def)
  then have "k \<noteq> 0" by (auto simp: MIN_SLOTS_def intro: ccontr)
  then have "2 * (len m div 2) = len m" using k by (cases k) simp_all
  moreover from assms(1) have "length (buckets m) = len m" by (simp add: wf_def)
  ultimately show ?thesis
    using mset_concat_folded[of "len m div 2" "buckets m"]
    by (simp add: links_def buckets_shrunk_map[OF assms])
qed

subsection \<open>interface\<close>

lemma wf_init: "wf (hashmap_init True h c)"
proof -
  have "\<exists>k. (16::nat) = 2 ^ k" by (rule exI[of _ 4]) simp
  then show ?thesis
    by (simp add: wf_def hashmap_init_def calloc_def MIN_SLOTS_def buckets_def links_def)
qed

lemma hashmap_get_wf:
  assumes "wf m"
  shows "hashmap_get m key = Done (get_walk (cmp m) key (buckets m ! slot_of m key))"
proof -
  from wf_table[OF assms] obtain slots where s: "table m = Some slots" "len m \<le> length slots"
    by blast
  with wf_slot_of[OF assms, of key] show ?thesis
    by (simp add: hashmap_get_def slot_get_def buckets_def slot_of_def)
qed

lemma buckets_linked:
  assumes "wf m"
  shows "buckets (linked m node key) =
           (buckets m)[slot_of m key := stored m node key # buckets m ! slot_of m key]"
proof -
  from wf_table[OF assms] obtain slots where s: "table m = Some slots" "len m \<le> length slots"
    by blast
  with wf_slot_of[OF assms, of key] show ?thesis
    by (simp add: linked_def buckets_def take_update_swap)
qed

lemma links_linked:
  assumes "wf m"
  shows "mset (links (linked m node key)) = add_mset (stored m node key) (mset (links m))"
proof -
  have "slot_of m key < length (buckets m)"
    using wf_slot_of[OF assms, of key] assms by (simp add: wf_def)
  from mset_concat_update[OF this, of "stored m node key # buckets m ! slot_of m key"]
  show ?thesis
    by (simp add: links_def buckets_linked[OF assms])
qed

lemma wf_linked:
  assumes "wf m"
  shows "wf (linked m node key)"
proof -
  let ?m' = "linked m node key"
  have sl: "slot_of m key < len m" by (rule wf_slot_of[OF assms])
  have l: "len ?m' = len m" by (simp add: linked_def)
  have 1: "\<exists>k. len ?m' = 2 ^ k" using assms by (simp add: l wf_def)
  have 2: "MIN_SLOTS \<le> len ?m'" using assms by (simp add: l wf_def)
  have 3: "length (buckets ?m') = len ?m'"
    using assms by (simp add: buckets_linked[OF assms] l wf_def)
  have 4: "hash node' AND (len ?m' - 1) = i" if "i < len ?m'" "node' \<in> set (buckets ?m' ! i)"
    for i node'
  proof (cases "i = slot_of m key")
    case True
    with that assms have "node' = stored m node key \<or> node' \<in> set (buckets m ! i)"
      by (auto simp: buckets_linked[OF assms] l wf_def)
    then show ?thesis
    proof
      assume "node' = stored m node key"
      then show ?thesis using True by (simp add: stored_def slot_of_def l)
    next
      assume "node' \<in> set (buckets m ! i)"
      then show ?thesis using assms that(1) by (simp add: wf_def l)
    qed
  next
    case False
    with that have "node' \<in> set (buckets m ! i)"
      by (simp add: buckets_linked[OF assms])
    then show ?thesis using assms that(1) by (simp add: wf_def l)
  qed
  have 5: "count ?m' = length (links ?m')"
  proof -
    have "count ?m' = count m + 1" by (simp add: linked_def)
    moreover have "length (links ?m') = length (links m) + 1"
      using arg_cong[OF links_linked[OF assms, of node key], of size] by simp
    ultimately show ?thesis using assms by (simp add: wf_def)
  qed
  show ?thesis unfolding wf_def using 1 2 3 4 5 by blast
qed

lemma hashmap_insert_wf:
  assumes "wf m"
  shows "hashmap_insert ok m node key =
           Done (0, if len m * 3 < count m + 1 \<and> ok then grown_map (linked m node key)
                    else linked m node key)"
proof -
  from wf_table[OF assms] obtain slots where s: "table m = Some slots" "len m \<le> length slots"
    by blast
  have sl: "slot_of m key < length slots" using wf_slot_of[OF assms, of key] s by simp
  have m1: "m\<lparr>table := Some (slots[slot_of m key := stored m node key # slots ! slot_of m key]),
              count := count m + 1\<rparr> = linked m node key"
    by (simp add: linked_def s)
  have g: "hashmap_grow ok (linked m node key) =
            (if ok then Done (0, grown_map (linked m node key)) else Done (- 1, linked m node key))"
    by (rule hashmap_grow_wf[OF wf_linked[OF assms]])
  have c: "count (linked m node key) = count m + 1" "len (linked m node key) = len m"
    by (simp_all add: linked_def)
  show ?thesis
    using sl s g
    unfolding hashmap_insert_def linked_def stored_def slot_of_def Let_def slot_get_def slot_set_def
    by simp
qed

lemma buckets_unlinked:
  assumes "wf m"
  shows "buckets (unlinked m key rest) = (buckets m)[slot_of m key := rest]"
proof -
  from wf_table[OF assms] obtain slots where s: "table m = Some slots" "len m \<le> length slots"
    by blast
  with wf_slot_of[OF assms, of key] show ?thesis
    by (simp add: unlinked_def buckets_def take_update_swap)
qed

lemma links_unlinked:
  assumes "wf m" "remove_walk (cmp m) key (buckets m ! slot_of m key) = Some (found, rest)"
  shows "mset (links m) = add_mset found (mset (links (unlinked m key rest)))"
proof -
  have "slot_of m key < length (buckets m)"
    using wf_slot_of[OF assms(1), of key] assms(1) by (simp add: wf_def)
  from mset_concat_update[OF this, of rest] remove_walk_mset[OF assms(2)]
  show ?thesis
    by (simp add: links_def buckets_unlinked[OF assms(1)])
qed

lemma wf_unlinked:
  assumes "wf m" "remove_walk (cmp m) key (buckets m ! slot_of m key) = Some (found, rest)"
  shows "wf (unlinked m key rest)"
proof -
  let ?m' = "unlinked m key rest"
  have sl: "slot_of m key < len m" by (rule wf_slot_of[OF assms(1)])
  have l: "len ?m' = len m" by (simp add: unlinked_def)
  from remove_walk_SomeD[OF assms(2)] have sub: "set rest \<subseteq> set (buckets m ! slot_of m key)"
    by auto
  have 1: "\<exists>k. len ?m' = 2 ^ k" using assms by (simp add: l wf_def)
  have 2: "MIN_SLOTS \<le> len ?m'" using assms by (simp add: l wf_def)
  have 3: "length (buckets ?m') = len ?m'"
    using assms by (simp add: buckets_unlinked[OF assms(1)] l wf_def)
  have 4: "hash node' AND (len ?m' - 1) = i" if "i < len ?m'" "node' \<in> set (buckets ?m' ! i)"
    for i node'
  proof -
    from that sub assms(1) have "node' \<in> set (buckets m ! i)"
      by (cases "i = slot_of m key") (auto simp: buckets_unlinked[OF assms(1)] l wf_def)
    then show ?thesis using assms that(1) by (simp add: wf_def l)
  qed
  have 5: "count ?m' = length (links ?m')"
  proof -
    have "count ?m' = count m - 1" by (simp add: unlinked_def)
    moreover have "length (links m) = length (links ?m') + 1"
      using arg_cong[OF links_unlinked[OF assms], of size] by simp
    ultimately show ?thesis using assms by (simp add: wf_def)
  qed
  show ?thesis unfolding wf_def using 1 2 3 4 5 by blast
qed

lemma hashmap_remove_wf:
  assumes "wf m"
  shows "hashmap_remove ok m key =
           (case remove_walk (cmp m) key (buckets m ! slot_of m key) of
              None \<Rightarrow> Done (None, m)
            | Some (node, rest) \<Rightarrow>
                Done (Some node,
                      if count m - 1 < len m div 4 \<and> MIN_SLOTS < len m
                      then shrunk_map ok (unlinked m key rest) else unlinked m key rest))"
proof -
  from wf_table[OF assms] obtain slots where s: "table m = Some slots" "len m \<le> length slots"
    by blast
  have sl: "slot_of m key < len m" by (rule wf_slot_of[OF assms])
  have b: "buckets m ! slot_of m key = slots ! slot_of m key"
    using sl s by (simp add: buckets_def)
  show ?thesis
  proof (cases "remove_walk (cmp m) key (buckets m ! slot_of m key)")
    case None
    have "slot_of m key < length slots" using sl s by simp
    then show ?thesis
      using s b None
      unfolding hashmap_remove_def slot_of_def Let_def slot_get_def
      by simp
  next
    case (Some p)
    obtain node rest where p: "p = (node, rest)" by (cases p)
    have m1: "m\<lparr>table := Some (slots[slot_of m key := rest]), count := count m - 1\<rparr> =
              unlinked m key rest"
      by (simp add: unlinked_def s)
    have w: "wf (unlinked m key rest)"
      using wf_unlinked[OF assms] Some p by simp
    have c: "count (unlinked m key rest) = count m - 1" "len (unlinked m key rest) = len m"
      by (simp_all add: unlinked_def)
    have sh: "hashmap_shrink ok (unlinked m key rest) =
                Done (if ok then 0 else - 1, shrunk_map ok (unlinked m key rest))"
      by (rule hashmap_shrink_wf[OF w])
    have sl': "slot_of m key < length slots" using sl s by simp
    show ?thesis
      using sl' s b Some p sh
      unfolding hashmap_remove_def unlinked_def slot_of_def Let_def slot_get_def slot_set_def
      by simp
  qed
qed

subsection \<open>Sequences of calls\<close>

lemma funs_linked [simp]: "hashf (linked m node key) = hashf m" "cmp (linked m node key) = cmp m"
  "len (linked m node key) = len m" "count (linked m node key) = count m + 1"
  by (simp_all add: linked_def)

lemma funs_unlinked [simp]: "hashf (unlinked m key rest) = hashf m" "cmp (unlinked m key rest) = cmp m"
  "len (unlinked m key rest) = len m" "count (unlinked m key rest) = count m - 1"
  by (simp_all add: unlinked_def)

lemma funs_grown_map [simp]: "hashf (grown_map m) = hashf m" "cmp (grown_map m) = cmp m"
  "len (grown_map m) = len m * 2" "count (grown_map m) = count m"
  by (simp_all add: grown_map_def)

lemma funs_shrunk_map [simp]: "hashf (shrunk_map ok m) = hashf m" "cmp (shrunk_map ok m) = cmp m"
  "len (shrunk_map ok m) = len m div 2" "count (shrunk_map ok m) = count m"
  by (simp_all add: shrunk_map_def)

lemma step_wf:
  assumes "wf m"
  shows "\<exists>m'. step m c = Done m' \<and> wf m' \<and> hashf m' = hashf m \<and> cmp m' = cmp m"
proof (cases c)
  case (Insert ok node key)
  then show ?thesis
    using wf_linked[OF assms, of node key] wf_grown_map[of "linked m node key"]
    by (simp add: hashmap_insert_wf[OF assms])
next
  case (Remove ok key)
  show ?thesis
  proof (cases "remove_walk (cmp m) key (buckets m ! slot_of m key)")
    case None
    then show ?thesis using assms Remove by (simp add: hashmap_remove_wf[OF assms])
  next
    case (Some p)
    obtain found rest where p: "p = (found, rest)" by (cases p)
    have w: "wf (unlinked m key rest)" using wf_unlinked[OF assms] Some p by simp
    then show ?thesis
      using Remove Some p wf_shrunk_map[OF w, of ok]
      by (simp add: hashmap_remove_wf[OF assms])
  qed
qed

lemma run_wf:
  "wf m \<Longrightarrow> \<exists>m'. run m cs = Done m' \<and> wf m' \<and> hashf m' = hashf m \<and> cmp m' = cmp m"
proof (induction cs arbitrary: m)
  case Nil
  then show ?case by simp
next
  case (Cons c cs)
  from step_wf[OF Cons.prems, of c] obtain m1 where
    m1: "step m c = Done m1" "wf m1" "hashf m1 = hashf m" "cmp m1 = cmp m" by blast
  from Cons.IH[OF m1(2)] m1 show ?case by auto
qed

lemma harness_48:
  "outcome_map (\<lambda>m. (len m, count m)) (run (hashmap_init True hash_test cmp_test) (harness 48)) = Done (16, 48)"
  by code_simp

lemma harness_48_state:
  "\<exists>m. run (hashmap_init True hash_test cmp_test) (harness 48) = Done m \<and> wf m \<and>
       len m = 16 \<and> count m = 48 \<and> hashf m = hash_test \<and> cmp m = cmp_test"
proof -
  from run_wf[OF wf_init, of hash_test cmp_test "harness 48"] obtain m where
    m: "run (hashmap_init True hash_test cmp_test) (harness 48) = Done m" "wf m"
       "hashf m = hash_test" "cmp m = cmp_test"
    by (auto simp: hashmap_init_def)
  with harness_48 show ?thesis by simp
qed

lemma in_links_bucket:
  assumes "wf m" "x \<in> set (links m)"
  shows "hash x AND (len m - 1) < len m \<and> x \<in> set (buckets m ! (hash x AND (len m - 1)))"
proof -
  from assms(2) obtain c where "c \<in> set (buckets m)" "x \<in> set c"
    by (auto simp: links_def)
  then obtain i where i: "i < length (buckets m)" "x \<in> set (buckets m ! i)"
    by (auto simp: in_set_conv_nth)
  with assms(1) have "i < len m" "hash x AND (len m - 1) = i"
    by (auto simp: wf_def)
  with i show ?thesis by simp
qed

lemma bucket_subset_links:
  assumes "wf m" "i < len m"
  shows "set (buckets m ! i) \<subseteq> set (links m)"
proof -
  from assms have "buckets m ! i \<in> set (buckets m)"
    by (simp add: wf_def)
  then show ?thesis by (auto simp: links_def)
qed

lemma get_walk_head: "c node key \<noteq> 0 \<Longrightarrow> get_walk c key (node # chain) = Some node"
  by simp

lemma hashmap_get_linked:
  assumes "wf m" "cmp m (stored m node key) key \<noteq> 0"
  shows "hashmap_get (linked m node key) key = Done (Some (stored m node key))"
proof -
  have w: "wf (linked m node key)" by (rule wf_linked[OF assms(1)])
  have s: "slot_of (linked m node key) key = slot_of m key" by (simp add: slot_of_def)
  have "slot_of m key < length (buckets m)"
    using wf_slot_of[OF assms(1), of key] assms(1) by (simp add: wf_def)
  then show ?thesis
    using assms(2) by (simp add: hashmap_get_wf[OF w] s buckets_linked[OF assms(1)])
qed

lemma hashmap_grow_hashf:
  "hashmap_grow ok (m\<lparr>hashf := f\<rparr>) =
     outcome_map (\<lambda>(r, m2). (r, m2\<lparr>hashf := f\<rparr>)) (hashmap_grow ok m)"
  by (simp add: hashmap_grow_def split: option.splits outcome.splits)

lemma hashmap_insert_trigger:
  assumes "wf m"
  shows "hashmap_insert ok m node key =
           (if len m * 3 < count m + 1 then
              (case hashmap_grow ok (linked m node key) of
                 Fault \<Rightarrow> Fault
               | Done (r, m2) \<Rightarrow> Done (0, m2))
            else Done (0, linked m node key))"
  by (simp add: hashmap_insert_wf[OF assms] hashmap_grow_wf[OF wf_linked[OF assms]])

lemma hashmap_remove_trigger:
  assumes "wf m"
  shows "hashmap_remove ok m key =
           (case remove_walk (cmp m) key (buckets m ! slot_of m key) of
              None \<Rightarrow> Done (None, m)
            | Some (node, rest) \<Rightarrow>
                if count m - 1 < len m div 4 \<and> MIN_SLOTS < len m then
                  (case hashmap_shrink ok (unlinked m key rest) of
                     Fault \<Rightarrow> Fault
                   | Done (r, m2) \<Rightarrow> Done (Some node, m2))
                else Done (Some node, unlinked m key rest))"
proof (cases "remove_walk (cmp m) key (buckets m ! slot_of m key)")
  case None
  then show ?thesis by (simp add: hashmap_remove_wf[OF assms])
next
  case (Some p)
  obtain found rest where p: "p = (found, rest)" by (cases p)
  have w: "wf (unlinked m key rest)" using wf_unlinked[OF assms] Some p by simp
  show ?thesis
    using Some p by (simp add: hashmap_remove_wf[OF assms] hashmap_shrink_wf[OF w])
qed

lemma hashmap_remove_len:
  assumes "wf m"
  shows "\<exists>r m'. hashmap_remove ok m key = Done (r, m') \<and> MIN_SLOTS \<le> len m' \<and>
                 (len m' = len m \<or> len m' = len m div 2)"
proof -
  from step_wf[OF assms, of "Remove ok key"] obtain m' where
    m': "step m (Remove ok key) = Done m'" "wf m'" by blast
  then obtain r where r: "hashmap_remove ok m key = Done (r, m')"
    by (auto split: outcome.splits)
  have "len m' = len m \<or> len m' = len m div 2"
    using r by (auto simp: hashmap_remove_wf[OF assms] split: option.splits if_splits)
  with r m'(2) show ?thesis by (auto simp: wf_def)
qed


lemma harness_48_bucket0:
  "outcome_map (\<lambda>m. buckets m ! 0) (run (hashmap_init True hash_test cmp_test) (harness 48)) =
     Done [\<lparr>hash = 32, container = (32, 155)\<rparr>, \<lparr>hash = 16, container = (16, 139)\<rparr>,
           \<lparr>hash = 0, container = (0, 123)\<rparr>]"
  by code_simp

lemma drained_8:
  "outcome_map (\<lambda>m. (len m, count m, remove_walk (cmp m) 7 (buckets m ! slot_of m 7)))
     (run (hashmap_init True hash_test cmp_test) (harness 49 @ drain 49 8)) =
   Done (32, 8, Some (\<lparr>hash = 7, container = (7, 130)\<rparr>, []))"
  by code_simp

lemma hashmap_insert_links:
  assumes "wf m"
  shows "\<exists>m'. hashmap_insert ok m node key = Done (0, m') \<and> wf m' \<and>
              hashf m' = hashf m \<and> cmp m' = cmp m \<and>
              mset (links m') = add_mset (stored m node key) (mset (links m)) \<and>
              count m' = count m + 1"
proof -
  have w: "wf (linked m node key)" by (rule wf_linked[OF assms])
  show ?thesis
    using w wf_grown_map[OF w] links_grown_map[OF w] links_linked[OF assms, of node key]
    by (simp add: hashmap_insert_wf[OF assms])
qed

lemma hashmap_remove_links:
  assumes "wf m"
  shows "\<exists>r m'. hashmap_remove ok m key = Done (r, m') \<and> wf m' \<and>
              hashf m' = hashf m \<and> cmp m' = cmp m \<and>
              (case r of
                 None \<Rightarrow> m' = m \<and> (\<forall>node \<in> set (buckets m ! slot_of m key). cmp m node key = 0)
               | Some found \<Rightarrow>
                   cmp m found key \<noteq> 0 \<and> found \<in> set (buckets m ! slot_of m key) \<and>
                   mset (links m) = add_mset found (mset (links m')) \<and>
                   count m' + 1 = count m)"
proof (cases "remove_walk (cmp m) key (buckets m ! slot_of m key)")
  case None
  then have "\<forall>node \<in> set (buckets m ! slot_of m key). cmp m node key = 0"
    by (simp add: remove_walk_None)
  then show ?thesis
    using assms None by (simp add: hashmap_remove_wf[OF assms])
next
  case (Some p)
  obtain found rest where p: "p = (found, rest)" by (cases p)
  have rw: "remove_walk (cmp m) key (buckets m ! slot_of m key) = Some (found, rest)"
    using Some p by simp
  have w: "wf (unlinked m key rest)" by (rule wf_unlinked[OF assms rw])
  have l: "mset (links m) = add_mset found (mset (links (unlinked m key rest)))"
    by (rule links_unlinked[OF assms rw])
  from arg_cong[OF l, of size] assms have c: "count m = count (unlinked m key rest) + 1"
    using w by (simp add: wf_def)
  from remove_walk_SomeD[OF rw] have f: "cmp m found key \<noteq> 0"
    "found \<in> set (buckets m ! slot_of m key)" by auto
  show ?thesis
    using rw w l c f wf_shrunk_map[OF w, of ok] links_shrunk_map[OF w, of ok]
    by (simp add: hashmap_remove_wf[OF assms])
qed

lemma step_load:
  assumes "wf m" "count m \<le> len m * 3" "\<not> grow_fails m c" "step m c = Done m'"
  shows "count m' \<le> len m' * 3"
proof (cases c)
  case (Insert ok node key)
  have "16 \<le> len m" using assms(1) by (simp add: wf_def MIN_SLOTS_def)
  with Insert assms show ?thesis
    by (auto simp: hashmap_insert_wf[OF assms(1)] split: if_splits)
next
  case (Remove ok key)
  with assms show ?thesis
    by (auto simp: hashmap_remove_wf[OF assms(1)] split: if_splits option.splits)
qed

lemma run_load:
  assumes "wf m" "count m \<le> len m * 3" "grows_succeed m cs" "run m cs = Done m'"
  shows "count m' \<le> len m' * 3"
  using assms
proof (induction cs arbitrary: m)
  case Nil
  then show ?case by simp
next
  case (Cons c cs)
  from step_wf[OF Cons.prems(1), of c] obtain m1 where
    m1: "step m c = Done m1" "wf m1" by blast
  have "count m1 \<le> len m1 * 3"
    using step_load[OF Cons.prems(1,2) _ m1(1)] Cons.prems(3) by simp
  then show ?case
    using Cons.IH[OF m1(2), of ] Cons.prems(3,4) m1(1) by simp
qed

lemma run_init_failed: "run (hashmap_init False h c) (c1 # cs) = Fault"
  by (cases c1)
     (simp_all add: hashmap_init_def calloc_def hashmap_insert_def hashmap_remove_def
        slot_get_def Let_def)




lemma harness_49:
  "outcome_map (\<lambda>m. (len m, count m)) (run (hashmap_init True hash_test cmp_test) (harness 49)) =
     Done (32, 49)"
  by code_simp

lemma harness_49_grows: "grows_succeed (hashmap_init True hash_test cmp_test) (harness 49)"
  by code_simp

lemma hashmap_get_unique:
  assumes "wf m" "target \<in> set (links m)" "hash target = hashf m key"
    and "cmp m target key \<noteq> 0"
    and "\<forall>x \<in> set (links m). cmp m x key \<noteq> 0 \<longrightarrow> x = target"
  shows "hashmap_get m key = Done (Some target)"
proof -
  let ?b = "buckets m ! slot_of m key"
  from in_links_bucket[OF assms(1,2)] assms(3) have t: "target \<in> set ?b"
    by (simp add: slot_of_def)
  have sub: "set ?b \<subseteq> set (links m)"
    by (rule bucket_subset_links[OF assms(1) wf_slot_of[OF assms(1)]])
  have "find (\<lambda>node. cmp m node key \<noteq> 0) ?b \<noteq> None"
    using t assms(4) by (auto simp: find_None_iff)
  then obtain x where x: "find (\<lambda>node. cmp m node key \<noteq> 0) ?b = Some x" by blast
  then have "x \<in> set ?b" "cmp m x key \<noteq> 0"
    by (auto simp: find_Some_iff)
  with sub assms(5) have "x = target" by blast
  with x show ?thesis
    by (simp add: hashmap_get_wf[OF assms(1)] get_walk_find)
qed

lemma run_inserts_links:
  assumes "wf m"
  shows "\<exists>m'. run m (inserts xs) = Done m' \<and> wf m' \<and> hashf m' = hashf m \<and> cmp m' = cmp m \<and>
              mset (links m') =
                mset (links m) + mset (map (\<lambda>(ok, node, key). node\<lparr>hash := hashf m key\<rparr>) xs)"
  using assms
proof (induction xs arbitrary: m)
  case Nil
  then show ?case by (simp add: inserts_def)
next
  case (Cons x xs)
  obtain ok node key where x: "x = (ok, node, key)" by (cases x)
  from hashmap_insert_links[OF Cons.prems, of ok node key] obtain m1 where
    m1: "hashmap_insert ok m node key = Done (0, m1)" "wf m1" "hashf m1 = hashf m"
        "cmp m1 = cmp m" "mset (links m1) = add_mset (stored m node key) (mset (links m))"
    by blast
  from Cons.IH[OF m1(2)] obtain m' where
    m': "run m1 (inserts xs) = Done m'" "wf m'" "hashf m' = hashf m1" "cmp m' = cmp m1"
        "mset (links m') =
           mset (links m1) + mset (map (\<lambda>(ok, node, key). node\<lparr>hash := hashf m1 key\<rparr>) xs)"
    by blast
  have "run m (inserts (x # xs)) = Done m'"
    using m1(1) m'(1) by (simp add: inserts_def x)
  then show ?case
    using m1 m' by (simp add: x stored_def)
qed

lemma distinct_keys_entries: "distinct_keys hash_test cmp_test (entries n)"
  by (simp add: distinct_keys_def entries_def cmp_test_def test_node_def)

lemma harness_48_table:
  "outcome_map table (run (hashmap_init True hash_test cmp_test) (harness 48)) = Done (table crowded)"
  by code_simp

lemma harness_48_crowded: "run (hashmap_init True hash_test cmp_test) (harness 48) = Done crowded"
proof -
  from harness_48_state obtain m where
    m: "run (hashmap_init True hash_test cmp_test) (harness 48) = Done m"
       "len m = 16" "count m = 48" "hashf m = hash_test" "cmp m = cmp_test" by blast
  with harness_48_table have "table m = table crowded" by simp
  with m have "m = crowded" by (simp add: crowded_def)
  with m(1) show ?thesis by simp
qed

lemma wf_crowded: "wf crowded"
  using harness_48_state harness_48_crowded by auto

lemma step_not_shrink_pending:
  assumes "wf m" "\<not> shrink_pending m" "step m c = Done m'"
  shows "\<not> shrink_pending m'"
proof (cases c)
  case (Insert ok node key)
  with assms show ?thesis
    by (auto simp: hashmap_insert_wf[OF assms(1)] shrink_pending_def split: if_splits)
next
  case (Remove ok key)
  have "16 \<le> len m" using assms(1) by (simp add: wf_def MIN_SLOTS_def)
  with Remove assms show ?thesis
    by (auto simp: hashmap_remove_wf[OF assms(1)] shrink_pending_def MIN_SLOTS_def
        split: if_splits option.splits)
qed

lemma run_not_shrink_pending:
  assumes "wf m" "\<not> shrink_pending m" "run m cs = Done m'"
  shows "\<not> shrink_pending m'"
  using assms
proof (induction cs arbitrary: m)
  case Nil
  then show ?case by simp
next
  case (Cons c cs)
  from step_wf[OF Cons.prems(1), of c] obtain m1 where
    m1: "step m c = Done m1" "wf m1" by blast
  from step_not_shrink_pending[OF Cons.prems(1,2) m1(1)] Cons.IH[OF m1(2)] Cons.prems(3) m1(1)
  show ?case by simp
qed

lemma unlinked_linked:
  assumes "wf m"
  shows "unlinked (linked m node key) key (buckets m ! slot_of m key) = m"
proof -
  from wf_table[OF assms] obtain slots where s: "table m = Some slots" "len m \<le> length slots"
    by blast
  have "slot_of (linked m node key) key = slot_of m key" by (simp add: slot_of_def)
  moreover have "buckets m ! slot_of m key = slots ! slot_of m key"
    using wf_slot_of[OF assms, of key] s by (simp add: buckets_def)
  ultimately show ?thesis
    using s by (simp add: unlinked_def linked_def)
qed

lemma insert_then_remove_same:
  assumes "wf m" "cmp m (stored m node key) key \<noteq> 0"
    and "\<not> (grow_pending m \<and> ok1)" "\<not> shrink_pending m"
  shows "hashmap_insert ok1 m node key = Done (0, linked m node key) \<and>
         hashmap_remove ok2 (linked m node key) key = Done (Some (stored m node key), m)"
proof -
  let ?m1 = "linked m node key"
  have w: "wf ?m1" by (rule wf_linked[OF assms(1)])
  have s: "slot_of ?m1 key = slot_of m key" by (simp add: slot_of_def)
  have "slot_of m key < length (buckets m)"
    using wf_slot_of[OF assms(1), of key] assms(1) by (simp add: wf_def)
  then have "remove_walk (cmp ?m1) key (buckets ?m1 ! slot_of ?m1 key) =
               Some (stored m node key, buckets m ! slot_of m key)"
    using assms(2) by (simp add: s buckets_linked[OF assms(1)])
  then have "hashmap_remove ok2 ?m1 key = Done (Some (stored m node key), m)"
    using assms(4) unlinked_linked[OF assms(1), of node key]
    by (auto simp: hashmap_remove_wf[OF w] shrink_pending_def)
  moreover have "hashmap_insert ok1 m node key = Done (0, ?m1)"
    using assms(3) by (auto simp: hashmap_insert_wf[OF assms(1)] grow_pending_def)
  ultimately show ?thesis by simp
qed

lemma insert_then_remove_count:
  assumes "wf m" "cmp m (stored m node key) key \<noteq> 0"
  shows "\<exists>m1 found m2. hashmap_insert ok1 m node key = Done (0, m1) \<and>
           hashmap_remove ok2 m1 key = Done (Some found, m2) \<and>
           cmp m found key \<noteq> 0 \<and> count m2 = count m"
proof -
  from hashmap_insert_links[OF assms(1), of ok1 node key] obtain m1 where
    m1: "hashmap_insert ok1 m node key = Done (0, m1)" "wf m1" "hashf m1 = hashf m"
        "cmp m1 = cmp m" "mset (links m1) = add_mset (stored m node key) (mset (links m))"
        "count m1 = count m + 1"
    by blast
  from m1(5) have "stored m node key \<in> set (links m1)"
    by (metis set_mset_mset union_single_eq_member)
  from in_links_bucket[OF m1(2) this]
  have b: "stored m node key \<in> set (buckets m1 ! slot_of m1 key)"
    by (simp add: slot_of_def stored_def m1(3))
  from hashmap_remove_links[OF m1(2), of ok2 key] obtain r m2 where
    r: "hashmap_remove ok2 m1 key = Done (r, m2)"
       "case r of
          None \<Rightarrow> m2 = m1 \<and> (\<forall>node \<in> set (buckets m1 ! slot_of m1 key). cmp m1 node key = 0)
        | Some found \<Rightarrow>
            cmp m1 found key \<noteq> 0 \<and> found \<in> set (buckets m1 ! slot_of m1 key) \<and>
            mset (links m1) = add_mset found (mset (links m2)) \<and>
            count m2 + 1 = count m1" by blast
  show ?thesis
  proof (cases r)
    case None
    with r(2) b assms(2) show ?thesis by (auto simp: m1(4))
  next
    case (Some found)
    with r m1 show ?thesis by auto
  qed
qed

lemma hashmap_insert_status:
  "outcome_map fst (hashmap_insert ok m node key) = Fault \<or>
   outcome_map fst (hashmap_insert ok m node key) = Done 0"
  by (auto simp: hashmap_insert_def Let_def split: outcome.splits)

lemma hashmap_shrink_Fault_iff:
  "hashmap_shrink False m = Fault \<longleftrightarrow> hashmap_shrink True m = Fault"
  by (simp add: hashmap_shrink_def Let_def realloc_def split: outcome.splits option.splits)

lemma hashmap_remove_result:
  "outcome_map fst (hashmap_remove False m key) = outcome_map fst (hashmap_remove True m key)"
proof (cases "slot_get (table m) (hashf m key AND (len m - 1))")
  case Fault
  then show ?thesis by (simp add: hashmap_remove_def)
next
  case (Done head)
  show ?thesis
  proof (cases "remove_walk (cmp m) key head")
    case None
    with Done show ?thesis by (simp add: hashmap_remove_def)
  next
    case (Some p)
    obtain node rest where p: "p = (node, rest)" by (cases p)
    show ?thesis
    proof (cases "slot_set (table m) (hashf m key AND (len m - 1)) rest")
      case Fault
      with Done Some p show ?thesis by (simp add: hashmap_remove_def)
    next
      case (Done t)
      define m1 where "m1 = m\<lparr>table := t, count := count m - 1\<rparr>"
      have r: "hashmap_remove ok m key =
                 (if count m1 < len m1 div 4 \<and> MIN_SLOTS < len m1 then
                    (case hashmap_shrink ok m1 of
                       Fault \<Rightarrow> Fault
                     | Done (r, m2) \<Rightarrow> Done (Some node, m2))
                  else Done (Some node, m1))" for ok
        using \<open>slot_get (table m) (hashf m key AND (len m - 1)) = Done head\<close> Some p Done
        by (simp add: hashmap_remove_def Let_def m1_def)
      have "outcome_map fst (case hashmap_shrink False m1 of
                       Fault \<Rightarrow> Fault
                     | Done (r, m2) \<Rightarrow> Done (Some node, m2)) =
            outcome_map fst (case hashmap_shrink True m1 of
                       Fault \<Rightarrow> Fault
                     | Done (r, m2) \<Rightarrow> Done (Some node, m2))"
        using hashmap_shrink_Fault_iff[of m1]
        by (cases "hashmap_shrink False m1"; cases "hashmap_shrink True m1") auto
      then show ?thesis by (simp add: r)
    qed
  qed
qed

lemma init_failed_faults:
  "hashmap_get (hashmap_init False h c) key = Fault"
  "hashmap_insert ok (hashmap_init False h c) node key = Fault"
  "hashmap_remove ok (hashmap_init False h c) key = Fault"
  by (simp_all add: hashmap_init_def calloc_def hashmap_get_def hashmap_insert_def
      hashmap_remove_def slot_get_def Let_def)





lemma hashmap_remove_present:
  assumes "wf m" "target \<in> set (links m)" "hash target = hashf m key" "cmp m target key \<noteq> 0"
  shows "\<exists>found m'. hashmap_remove ok m key = Done (Some found, m') \<and> wf m' \<and>
           hashf m' = hashf m \<and> cmp m' = cmp m \<and>
           cmp m found key \<noteq> 0 \<and> found \<in> set (buckets m ! slot_of m key) \<and>
           mset (links m) = add_mset found (mset (links m')) \<and> count m' + 1 = count m"
proof -
  from in_links_bucket[OF assms(1,2)] assms(3)
  have t: "target \<in> set (buckets m ! slot_of m key)" by (simp add: slot_of_def)
  from hashmap_remove_links[OF assms(1), of ok key] obtain r m' where
    r: "hashmap_remove ok m key = Done (r, m')" "wf m'" "hashf m' = hashf m" "cmp m' = cmp m"
       "case r of
          None \<Rightarrow> m' = m \<and> (\<forall>node \<in> set (buckets m ! slot_of m key). cmp m node key = 0)
        | Some found \<Rightarrow>
            cmp m found key \<noteq> 0 \<and> found \<in> set (buckets m ! slot_of m key) \<and>
            mset (links m) = add_mset found (mset (links m')) \<and>
            count m' + 1 = count m" by blast
  show ?thesis
  proof (cases r)
    case None
    with r(5) t assms(4) show ?thesis by auto
  next
    case (Some found)
    with r show ?thesis by auto
  qed
qed




lemma crowded_remove_5:
  "harness_node 5 \<in> set (links crowded) \<and> hash (harness_node 5) = hashf crowded 5 \<and>
   cmp crowded (harness_node 5) 5 \<noteq> 0 \<and> count crowded = 48 \<and>
   outcome_map fst (hashmap_remove True crowded 5) = Done (Some (harness_node 5))"
  by code_simp

lemma insert_grows_then_remove:
  assumes "wf m" "cmp m (stored m node key) key \<noteq> 0" "grow_pending m"
  shows "\<exists>found rest m2.
           hashmap_insert True m node key = Done (0, grown_map (linked m node key)) \<and>
           remove_walk (cmp m) key
             (buckets (grown_map (linked m node key)) ! slot_of (grown_map (linked m node key)) key) =
             Some (found, rest) \<and>
           hashmap_remove ok2 (grown_map (linked m node key)) key = Done (Some found, m2) \<and>
           wf m2 \<and> len m2 = len m * 2 \<and> count m2 = count m \<and>
           buckets (grown_map (linked m node key)) = grown (len m) (buckets (linked m node key)) \<and>
           buckets m2 =
             (buckets (grown_map (linked m node key)))[slot_of (grown_map (linked m node key)) key := rest]"
proof -
  let ?m0 = "linked m node key"
  let ?m1 = "grown_map ?m0"
  have w0: "wf ?m0" by (rule wf_linked[OF assms(1)])
  have w1: "wf ?m1" by (rule wf_grown_map[OF w0])
  have i: "hashmap_insert True m node key = Done (0, ?m1)"
    using assms(3) by (simp add: hashmap_insert_wf[OF assms(1)] grow_pending_def)
  have "mset (links ?m1) = add_mset (stored m node key) (mset (links m))"
    by (simp add: links_grown_map[OF w0] links_linked[OF assms(1)])
  then have "stored m node key \<in> set (links ?m1)"
    by (metis set_mset_mset union_single_eq_member)
  from in_links_bucket[OF w1 this]
  have b: "stored m node key \<in> set (buckets ?m1 ! slot_of ?m1 key)"
    by (simp add: slot_of_def stored_def)
  with assms(2) have "remove_walk (cmp ?m1) key (buckets ?m1 ! slot_of ?m1 key) \<noteq> None"
    by (auto simp: remove_walk_None)
  then obtain found rest where
    rw: "remove_walk (cmp ?m1) key (buckets ?m1 ! slot_of ?m1 key) = Some (found, rest)"
    by auto
  have "16 \<le> len m" using assms(1) by (simp add: wf_def MIN_SLOTS_def)
  with assms(3) have "\<not> count m < len m div 2"
    unfolding grow_pending_def by linarith
  then have ns: "\<not> (count ?m1 - 1 < len ?m1 div 4 \<and> MIN_SLOTS < len ?m1)"
    by simp
  have r: "hashmap_remove ok2 ?m1 key = Done (Some found, unlinked ?m1 key rest)"
    using rw ns by (auto simp: hashmap_remove_wf[OF w1])
  have w2: "wf (unlinked ?m1 key rest)" by (rule wf_unlinked[OF w1 rw])
  have "buckets ?m1 = grown (len m) (buckets ?m0)"
    using buckets_grown_map[OF w0] by simp
  with i rw r w2 buckets_unlinked[OF w1, of key rest] show ?thesis
    by simp
qed

section \<open>The claims\<close>

text \<open>
  C10. When no node of the chain of the key's bucket matches the key, \<open>hashmap_remove\<close>
  returns \<^verbatim>\<open>NULL\<close> and the table it leaves is the table it was given: \<open>count\<close>,
  \<open>len\<close>, the bucket array and every chain are as before, whatever \<open>count\<close> and \<open>len\<close>
  are (no shrink is attempted, also when \<open>count < len / 4\<close> holds already).
\<close>

theorem remove_absent_unchanged:
  assumes "wf m" "\<forall>node \<in> set (buckets m ! slot_of m key). cmp m node key = 0"
  shows "hashmap_remove ok m key = Done (None, m)"
proof -
  from assms(2) have "remove_walk (cmp m) key (buckets m ! slot_of m key) = None"
    by (simp add: remove_walk_None)
  then show ?thesis by (simp add: hashmap_remove_wf[OF assms(1)])
qed

theorem remove_absent_unchanged_witness:
  "\<exists>m. run (hashmap_init True hash_test cmp_test) (harness 48) = Done m \<and>
       hashmap_remove True m 48 = Done (None, m)"
proof -
  from harness_48_state obtain m where
    m: "run (hashmap_init True hash_test cmp_test) (harness 48) = Done m" "wf m"
       "len m = 16" "count m = 48" "hashf m = hash_test" "cmp m = cmp_test" by blast
  have "outcome_map (\<lambda>m. \<forall>node \<in> set (buckets m ! slot_of m 48). cmp m node 48 = 0)
          (run (hashmap_init True hash_test cmp_test) (harness 48)) = Done True"
    by code_simp
  with m(1) have "\<forall>node \<in> set (buckets m ! slot_of m 48). cmp m node 48 = 0"
    by simp
  from remove_absent_unchanged[OF m(2) this, of True] m(1) show ?thesis by blast
qed

text \<open>
  C7. When the reallocation of a triggered grow fails, \<open>hashmap_grow\<close> returns \<open>-1\<close> and
  leaves the table exactly as it found it: \<open>hashmap_insert\<close> then returns the table with
  the new link at the head of its bucket, \<open>count\<close> incremented and \<open>len\<close> and every other
  chain unchanged. That table is well formed, a lookup of the key finds the new link, and
  every further sequence of calls runs on it without a fault.
\<close>

theorem failed_grow_is_skipped:
  assumes "wf m" "len m * 3 < count m + 1"
  shows "hashmap_insert False m node key = Done (0, linked m node key) \<and>
         hashmap_grow False (linked m node key) = Done (- 1, linked m node key) \<and>
         len (linked m node key) = len m \<and>
         count (linked m node key) = count m + 1 \<and>
         buckets (linked m node key) =
           (buckets m)[slot_of m key := stored m node key # buckets m ! slot_of m key] \<and>
         wf (linked m node key) \<and>
         (cmp m (stored m node key) key \<noteq> 0 \<longrightarrow>
            hashmap_get (linked m node key) key = Done (Some (stored m node key))) \<and>
         (\<forall>cs. \<exists>m'. run (linked m node key) cs = Done m' \<and> wf m')"
proof -
  have w: "wf (linked m node key)" by (rule wf_linked[OF assms(1)])
  have 1: "hashmap_insert False m node key = Done (0, linked m node key)"
    by (simp add: hashmap_insert_wf[OF assms(1)])
  have 2: "hashmap_grow False (linked m node key) = Done (- 1, linked m node key)"
    by (rule hashmap_grow_fail)
  have 3: "\<forall>cs. \<exists>m'. run (linked m node key) cs = Done m' \<and> wf m'"
    using run_wf[OF w] by blast
  show ?thesis
    using 1 2 3 w buckets_linked[OF assms(1), of node key] hashmap_get_linked[OF assms(1), of node key]
    by simp
qed

theorem failed_grow_is_skipped_witness:
  "\<exists>m. run (hashmap_init True hash_test cmp_test) (harness 48) = Done m \<and>
       hashmap_insert False m (test_node 48 171) 48 = Done (0, linked m (test_node 48 171) 48) \<and>
       hashmap_grow False (linked m (test_node 48 171) 48) = Done (- 1, linked m (test_node 48 171) 48) \<and>
       len (linked m (test_node 48 171) 48) = 16 \<and>
       count (linked m (test_node 48 171) 48) = 49 \<and>
       hashmap_get (linked m (test_node 48 171) 48) 48 = Done (Some \<lparr>hash = 48, container = (48, 171)\<rparr>)"
proof -
  from harness_48_state obtain m where
    m: "run (hashmap_init True hash_test cmp_test) (harness 48) = Done m" "wf m"
       "len m = 16" "count m = 48" "hashf m = hash_test" "cmp m = cmp_test" by blast
  have t: "len m * 3 < count m + 1" using m by simp
  have s: "stored m (test_node 48 171) 48 = \<lparr>hash = 48, container = (48, 171)\<rparr>"
    by (simp add: stored_def m test_node_def hash_test_def)
  have c: "cmp m (stored m (test_node 48 171) 48) 48 \<noteq> 0"
    by (simp add: s m cmp_test_def)
  from failed_grow_is_skipped[OF m(2) t, of "test_node 48 171" 48] c s m show ?thesis
    by auto
qed

text \<open>
  C3. \<open>hashmap_insert\<close> calls \<open>hashmap_grow\<close> exactly when \<open>count\<close>, after the increment,
  exceeds \<open>len * 3\<close>. When its reallocation succeeds, \<open>hashmap_grow\<close> doubles \<open>len\<close>, keeps
  \<open>count\<close>, and splits the chain of every bucket \<open>i\<close> below the old \<open>len\<close> by the bit
  \<open>len\<close> of the cached hashes: the nodes with the bit clear are the new bucket \<open>i\<close>, the
  nodes with the bit set are the new bucket \<open>i + len\<close> (each in the reverse of their old
  order). The hash function is not consulted: with another hash function in the table
  the result is the same table.
\<close>

theorem grow_trigger_and_split:
  assumes "wf m"
  shows "hashmap_insert ok m node key =
           (if len m * 3 < count m + 1 then
              (case hashmap_grow ok (linked m node key) of
                 Fault \<Rightarrow> Fault
               | Done (r, m2) \<Rightarrow> Done (0, m2))
            else Done (0, linked m node key)) \<and>
         (\<exists>m2. hashmap_grow True m = Done (0, m2) \<and>
               len m2 = len m * 2 \<and> count m2 = count m \<and> length (buckets m2) = len m * 2 \<and>
               (\<forall>i < len m.
                  buckets m2 ! i = rev (filter (\<lambda>node. hash node AND len m = 0) (buckets m ! i)) \<and>
                  buckets m2 ! (i + len m) =
                    rev (filter (\<lambda>node. hash node AND len m \<noteq> 0) (buckets m ! i)))) \<and>
         hashmap_grow ok (m\<lparr>hashf := f\<rparr>) =
           outcome_map (\<lambda>(r, m2). (r, m2\<lparr>hashf := f\<rparr>)) (hashmap_grow ok m)"
proof -
  have lb: "len m \<le> length (buckets m)" using assms by (simp add: wf_def)
  have "length (buckets (grown_map m)) = len m * 2"
    using lb by (simp add: buckets_grown_map[OF assms] length_grown)
  moreover have "buckets (grown_map m) ! i = rev (filter (\<lambda>node. hash node AND len m = 0) (buckets m ! i))"
    "buckets (grown_map m) ! (i + len m) = rev (filter (\<lambda>node. hash node AND len m \<noteq> 0) (buckets m ! i))"
    if "i < len m" for i
    using that lb
    by (simp_all add: buckets_grown_map[OF assms] grown_nth_low grown_nth_high keep_def move_def)
  ultimately have "\<exists>m2. hashmap_grow True m = Done (0, m2) \<and>
               len m2 = len m * 2 \<and> count m2 = count m \<and> length (buckets m2) = len m * 2 \<and>
               (\<forall>i < len m.
                  buckets m2 ! i = rev (filter (\<lambda>node. hash node AND len m = 0) (buckets m ! i)) \<and>
                  buckets m2 ! (i + len m) =
                    rev (filter (\<lambda>node. hash node AND len m \<noteq> 0) (buckets m ! i)))"
    by (intro exI[of _ "grown_map m"]) (simp add: hashmap_grow_wf[OF assms])
  then show ?thesis
    using hashmap_insert_trigger[OF assms, of ok node key] hashmap_grow_hashf[of ok f m]
    by blast
qed

theorem grow_trigger_and_split_witness:
  "\<exists>m. run (hashmap_init True hash_test cmp_test) (harness 48) = Done m \<and>
       (\<exists>m2. hashmap_insert True m (test_node 48 171) 48 = Done (0, m2) \<and>
              len m2 = 32 \<and> count m2 = 49 \<and>
              buckets m2 ! 0 = [\<lparr>hash = 0, container = (0, 123)\<rparr>, \<lparr>hash = 32, container = (32, 155)\<rparr>] \<and>
              buckets m2 ! 16 = [\<lparr>hash = 16, container = (16, 139)\<rparr>, \<lparr>hash = 48, container = (48, 171)\<rparr>])"
proof -
  from harness_48_state obtain m where
    m: "run (hashmap_init True hash_test cmp_test) (harness 48) = Done m" "wf m"
       "len m = 16" "count m = 48" "hashf m = hash_test" "cmp m = cmp_test" by blast
  let ?n = "test_node 48 171"
  let ?m1 = "linked m ?n 48"
  have w1: "wf ?m1" by (rule wf_linked[OF m(2)])
  have b0: "buckets m ! 0 = [\<lparr>hash = 32, container = (32, 155)\<rparr>, \<lparr>hash = 16, container = (16, 139)\<rparr>,
           \<lparr>hash = 0, container = (0, 123)\<rparr>]"
    using harness_48_bucket0 m(1) by simp
  have s: "slot_of m 48 = 0" by (simp add: slot_of_def m hash_test_def)
  have "0 < length (buckets m)" using m(2,3) by (simp add: wf_def)
  then have b1: "buckets ?m1 ! 0 = [\<lparr>hash = 48, container = (48, 171)\<rparr>,
           \<lparr>hash = 32, container = (32, 155)\<rparr>, \<lparr>hash = 16, container = (16, 139)\<rparr>,
           \<lparr>hash = 0, container = (0, 123)\<rparr>]"
    by (simp add: buckets_linked[OF m(2)] s b0 stored_def m test_node_def hash_test_def)
  from grow_trigger_and_split[OF w1, of True ?n 48 hash_test] obtain m2 where
    m2: "hashmap_grow True ?m1 = Done (0, m2)" "len m2 = len ?m1 * 2" "count m2 = count ?m1"
      "\<forall>i < len ?m1.
          buckets m2 ! i = rev (filter (\<lambda>node. hash node AND len ?m1 = 0) (buckets ?m1 ! i)) \<and>
          buckets m2 ! (i + len ?m1) =
            rev (filter (\<lambda>node. hash node AND len ?m1 \<noteq> 0) (buckets ?m1 ! i))"
    by blast
  from m2(4)[rule_format, of 0] have
    "buckets m2 ! 0 = [\<lparr>hash = 0, container = (0, 123)\<rparr>, \<lparr>hash = 32, container = (32, 155)\<rparr>]"
    "buckets m2 ! 16 = [\<lparr>hash = 16, container = (16, 139)\<rparr>, \<lparr>hash = 48, container = (48, 171)\<rparr>]"
    by (simp_all add: m b1)
  moreover have "hashmap_insert True m ?n 48 = Done (0, m2)"
    using grow_trigger_and_split[OF m(2), of True ?n 48 hash_test] m2(1) m by simp
  ultimately show ?thesis using m m2 by auto
qed

text \<open>
  C4. \<open>hashmap_remove\<close> calls \<open>hashmap_shrink\<close> exactly when it has unlinked a node and
  \<open>count\<close>, after the decrement, is below \<open>len / 4\<close> while \<open>len\<close> exceeds \<open>MIN_SLOTS\<close>.
  \<open>hashmap_shrink\<close> halves \<open>len\<close>, and every bucket \<open>i\<close> of the halved table is the old
  chain of bucket \<open>i\<close> followed by the old chain of bucket \<open>i + len\<close>. After a
  \<open>hashmap_remove\<close>, \<open>len\<close> is the old \<open>len\<close> or its half, and never below \<open>MIN_SLOTS\<close>.
\<close>

theorem shrink_trigger_and_fold:
  assumes "wf m"
  shows "hashmap_remove ok m key =
           (case remove_walk (cmp m) key (buckets m ! slot_of m key) of
              None \<Rightarrow> Done (None, m)
            | Some (node, rest) \<Rightarrow>
                if count m - 1 < len m div 4 \<and> MIN_SLOTS < len m then
                  (case hashmap_shrink ok (unlinked m key rest) of
                     Fault \<Rightarrow> Fault
                   | Done (r, m2) \<Rightarrow> Done (Some node, m2))
                else Done (Some node, unlinked m key rest)) \<and>
         (\<exists>r m2. hashmap_shrink ok m = Done (r, m2) \<and>
                 len m2 = len m div 2 \<and> count m2 = count m \<and> length (buckets m2) = len m div 2 \<and>
                 (\<forall>i < len m div 2.
                    buckets m2 ! i = buckets m ! i @ buckets m ! (i + len m div 2))) \<and>
         (\<exists>r m'. hashmap_remove ok m key = Done (r, m') \<and> MIN_SLOTS \<le> len m' \<and>
                 (len m' = len m \<or> len m' = len m div 2))"
proof -
  have "\<exists>r m2. hashmap_shrink ok m = Done (r, m2) \<and>
                 len m2 = len m div 2 \<and> count m2 = count m \<and> length (buckets m2) = len m div 2 \<and>
                 (\<forall>i < len m div 2.
                    buckets m2 ! i = buckets m ! i @ buckets m ! (i + len m div 2))"
    by (intro exI[of _ "if ok then 0 else - 1"] exI[of _ "shrunk_map ok m"])
       (simp add: hashmap_shrink_wf[OF assms] buckets_shrunk_map[OF assms] length_folded folded_nth)
  then show ?thesis
    using hashmap_remove_trigger[OF assms, of ok key] hashmap_remove_len[OF assms, of ok key]
    by blast
qed

theorem shrink_trigger_and_fold_witness:
  "\<exists>m. run (hashmap_init True hash_test cmp_test) (harness 49 @ drain 49 8) = Done m \<and>
       len m = 32 \<and> count m = 8 \<and>
       (\<exists>m2. hashmap_remove True m 7 = Done (Some \<lparr>hash = 7, container = (7, 130)\<rparr>, m2) \<and>
              len m2 = 16 \<and> count m2 = 7)"
proof -
  from run_wf[OF wf_init, of hash_test cmp_test "harness 49 @ drain 49 8"] obtain m where
    m: "run (hashmap_init True hash_test cmp_test) (harness 49 @ drain 49 8) = Done m" "wf m"
    by blast
  with drained_8 have e: "len m = 32" "count m = 8"
    "remove_walk (cmp m) 7 (buckets m ! slot_of m 7) = Some (\<lparr>hash = 7, container = (7, 130)\<rparr>, [])"
    by simp_all
  let ?m1 = "unlinked m 7 []"
  have w1: "wf ?m1" using wf_unlinked[OF m(2) e(3)] .
  from shrink_trigger_and_fold[OF w1, of True 7] obtain r m2 where
    m2: "hashmap_shrink True ?m1 = Done (r, m2)" "len m2 = len ?m1 div 2" "count m2 = count ?m1"
    by blast
  have "hashmap_remove True m 7 = Done (Some \<lparr>hash = 7, container = (7, 130)\<rparr>, m2)"
    using shrink_trigger_and_fold[OF m(2), of True 7] e m2(1) by (simp add: MIN_SLOTS_def)
  with m e m2 show ?thesis by auto
qed

text \<open>
  C8. \<open>count\<close> is the number of links of the table after \<open>hashmap_init\<close> and after every
  sequence of calls. On a well-formed table, \<open>hashmap_insert\<close> adds exactly the inserted
  link to the links and one to \<open>count\<close>. \<open>hashmap_remove\<close> returns \<^verbatim>\<open>NULL\<close> and changes
  nothing exactly when no node of the key's bucket is accepted by \<open>cmp\<close>; otherwise it
  returns a link of that bucket that \<open>cmp\<close> accepts with the key, and takes exactly that
  link from the links and one from \<open>count\<close>. In particular, when the table holds a link
  with the hash of the key that \<open>cmp\<close> accepts (the key is present), the removal unlinks
  exactly one link and decrements \<open>count\<close> by one. \<open>hashmap_grow\<close> and \<open>hashmap_shrink\<close>
  keep \<open>count\<close> and the multiset of links.
\<close>

theorem count_is_number_of_links:
  assumes "wf m"
  shows "(\<exists>m'. run (hashmap_init True h c) cs = Done m' \<and> count m' = length (links m')) \<and>
         (\<exists>m'. hashmap_insert ok m node key = Done (0, m') \<and>
               mset (links m') = add_mset (stored m node key) (mset (links m)) \<and>
               count m' = count m + 1 \<and> count m' = length (links m')) \<and>
         (\<exists>r m'. hashmap_remove ok m key = Done (r, m') \<and> count m' = length (links m') \<and>
               (case r of
                  None \<Rightarrow>
                    m' = m \<and> (\<forall>node \<in> set (buckets m ! slot_of m key). cmp m node key = 0)
                | Some found \<Rightarrow>
                    cmp m found key \<noteq> 0 \<and> found \<in> set (buckets m ! slot_of m key) \<and>
                    found \<in> set (links m) \<and>
                    mset (links m) = add_mset found (mset (links m')) \<and>
                    count m' + 1 = count m)) \<and>
         (\<forall>target \<in> set (links m). hash target = hashf m key \<and> cmp m target key \<noteq> 0 \<longrightarrow>
            (\<exists>found m'. hashmap_remove ok m key = Done (Some found, m') \<and>
               cmp m found key \<noteq> 0 \<and> found \<in> set (links m) \<and>
               mset (links m) = add_mset found (mset (links m')) \<and>
               count m' + 1 = count m \<and> count m' = length (links m'))) \<and>
         (\<exists>r m'. hashmap_grow ok m = Done (r, m') \<and>
               mset (links m') = mset (links m) \<and> count m' = count m) \<and>
         (\<exists>r m'. hashmap_shrink ok m = Done (r, m') \<and>
               mset (links m') = mset (links m) \<and> count m' = count m)"
proof -
  have sub: "set (buckets m ! slot_of m key) \<subseteq> set (links m)"
    by (rule bucket_subset_links[OF assms wf_slot_of[OF assms]])
  have 1: "\<exists>m'. run (hashmap_init True h c) cs = Done m' \<and> count m' = length (links m')"
    using run_wf[OF wf_init, of h c cs] by (auto simp: wf_def)
  have 2: "\<exists>m'. hashmap_insert ok m node key = Done (0, m') \<and>
               mset (links m') = add_mset (stored m node key) (mset (links m)) \<and>
               count m' = count m + 1 \<and> count m' = length (links m')"
    using hashmap_insert_links[OF assms, of ok node key] by (auto simp: wf_def)
  have 3: "\<exists>r m'. hashmap_remove ok m key = Done (r, m') \<and> count m' = length (links m') \<and>
               (case r of
                  None \<Rightarrow>
                    m' = m \<and> (\<forall>node \<in> set (buckets m ! slot_of m key). cmp m node key = 0)
                | Some found \<Rightarrow>
                    cmp m found key \<noteq> 0 \<and> found \<in> set (buckets m ! slot_of m key) \<and>
                    found \<in> set (links m) \<and>
                    mset (links m) = add_mset found (mset (links m')) \<and>
                    count m' + 1 = count m)"
  proof -
    from hashmap_remove_links[OF assms, of ok key] obtain r m' where
      r: "hashmap_remove ok m key = Done (r, m')" "wf m'"
         "case r of
            None \<Rightarrow> m' = m \<and> (\<forall>node \<in> set (buckets m ! slot_of m key). cmp m node key = 0)
          | Some found \<Rightarrow>
              cmp m found key \<noteq> 0 \<and> found \<in> set (buckets m ! slot_of m key) \<and>
              mset (links m) = add_mset found (mset (links m')) \<and>
              count m' + 1 = count m" by blast
    show ?thesis
    proof (cases r)
      case None
      with r show ?thesis by (auto simp: wf_def)
    next
      case (Some found)
      with r sub show ?thesis by (auto simp: wf_def)
    qed
  qed
  have 4: "\<forall>target \<in> set (links m). hash target = hashf m key \<and> cmp m target key \<noteq> 0 \<longrightarrow>
            (\<exists>found m'. hashmap_remove ok m key = Done (Some found, m') \<and>
               cmp m found key \<noteq> 0 \<and> found \<in> set (links m) \<and>
               mset (links m) = add_mset found (mset (links m')) \<and>
               count m' + 1 = count m \<and> count m' = length (links m'))"
  proof (intro ballI impI)
    fix target assume t: "target \<in> set (links m)"
      "hash target = hashf m key \<and> cmp m target key \<noteq> 0"
    from hashmap_remove_present[OF assms t(1), of key ok] t(2) obtain found m' where
      "hashmap_remove ok m key = Done (Some found, m')" "wf m'"
      "cmp m found key \<noteq> 0" "found \<in> set (buckets m ! slot_of m key)"
      "mset (links m) = add_mset found (mset (links m'))" "count m' + 1 = count m"
      by blast
    with sub show "\<exists>found m'. hashmap_remove ok m key = Done (Some found, m') \<and>
               cmp m found key \<noteq> 0 \<and> found \<in> set (links m) \<and>
               mset (links m) = add_mset found (mset (links m')) \<and>
               count m' + 1 = count m \<and> count m' = length (links m')"
      by (auto simp: wf_def)
  qed
  have 5: "\<exists>r m'. hashmap_grow ok m = Done (r, m') \<and>
               mset (links m') = mset (links m) \<and> count m' = count m"
    using links_grown_map[OF assms] by (simp add: hashmap_grow_wf[OF assms])
  have 6: "\<exists>r m'. hashmap_shrink ok m = Done (r, m') \<and>
               mset (links m') = mset (links m) \<and> count m' = count m"
    using links_shrunk_map[OF assms, of ok] by (simp add: hashmap_shrink_wf[OF assms])
  show ?thesis using 1 2 3 4 5 6 by blast
qed

theorem count_is_number_of_links_witness:
  "\<exists>m. run (hashmap_init True hash_test cmp_test) (harness 48) = Done m \<and>
       count m = 48 \<and> length (links m) = 48 \<and>
       (\<exists>m'. hashmap_insert True m (test_node 48 171) 48 = Done (0, m') \<and>
              count m' = 49 \<and> length (links m') = 49) \<and>
       (\<exists>m'. hashmap_remove True m 5 = Done (Some \<lparr>hash = 5, container = (5, 128)\<rparr>, m') \<and>
              count m' = 47 \<and> length (links m') = 47 \<and>
              mset (links m) = add_mset \<lparr>hash = 5, container = (5, 128)\<rparr> (mset (links m')))"
proof -
  have m: "run (hashmap_init True hash_test cmp_test) (harness 48) = Done crowded"
    by (rule harness_48_crowded)
  note t = count_is_number_of_links[OF wf_crowded, of hash_test cmp_test "harness 48" True
      "test_node 48 171" 48]
  note u = count_is_number_of_links[OF wf_crowded, of hash_test cmp_test "harness 48" True
      "test_node 48 171" 5]
  from t m have c: "count crowded = length (links crowded)" by auto
  from t have i: "\<exists>m'. hashmap_insert True crowded (test_node 48 171) 48 = Done (0, m') \<and>
               count m' = count crowded + 1 \<and> count m' = length (links m')" by blast
  from u crowded_remove_5 have "\<exists>found m'. hashmap_remove True crowded 5 = Done (Some found, m') \<and>
               mset (links crowded) = add_mset found (mset (links m')) \<and>
               count m' + 1 = count crowded \<and> count m' = length (links m')"
    by blast
  then obtain found m' where r: "hashmap_remove True crowded 5 = Done (Some found, m')"
    "mset (links crowded) = add_mset found (mset (links m'))"
    "count m' + 1 = count crowded" "count m' = length (links m')" by blast
  with crowded_remove_5 have "found = \<lparr>hash = 5, container = (5, 128)\<rparr>"
    by (simp add: harness_node_def)
  with r crowded_remove_5 have "\<exists>m'. hashmap_remove True crowded 5 =
        Done (Some \<lparr>hash = 5, container = (5, 128)\<rparr>, m') \<and>
        count m' = 47 \<and> length (links m') = 47 \<and>
        mset (links crowded) = add_mset \<lparr>hash = 5, container = (5, 128)\<rparr> (mset (links m'))"
    by auto
  with m c i crowded_remove_5 show ?thesis by auto
qed

text \<open>
  C2. \<open>hashmap_init\<close> sets \<open>len\<close> to \<open>MIN_SLOTS = 16\<close> and \<open>count\<close> to \<open>0\<close>, whether or
  not its allocation succeeds. After a successful \<open>hashmap_init\<close>, every sequence of
  insertions and removals, with any outcomes of the reallocations, runs without a fault
  and leaves \<open>len\<close> a power of two that is at least \<open>16\<close>; and \<open>count \<le> len * 3\<close> holds
  at its end when no insertion of the sequence that took \<open>count\<close> above \<open>len * 3\<close> had
  its reallocation fail. The same holds from any well-formed table with
  \<open>count \<le> len * 3\<close>: the bound is kept by every call that does not fail to grow.
  (After a failed \<open>hashmap_init\<close> the table is \<^verbatim>\<open>NULL\<close> and every call is a fault.)
\<close>

theorem capacity_invariant:
  "len (hashmap_init ok0 h c) = MIN_SLOTS \<and> count (hashmap_init ok0 h c) = 0 \<and> MIN_SLOTS = 2 ^ 4 \<and>
   (\<exists>m. run (hashmap_init True h c) cs = Done m \<and>
        (\<exists>k. len m = 2 ^ k) \<and> MIN_SLOTS \<le> len m \<and>
        (grows_succeed (hashmap_init True h c) cs \<longrightarrow> count m \<le> len m * 3)) \<and>
   (wf m0 \<and> count m0 \<le> len m0 * 3 \<and> grows_succeed m0 cs \<longrightarrow>
      (\<exists>m. run m0 cs = Done m \<and> count m \<le> len m * 3)) \<and>
   run (hashmap_init False h c) (c1 # cs) = Fault"
proof -
  from run_wf[OF wf_init, of h c cs] obtain m where
    m: "run (hashmap_init True h c) cs = Done m" "wf m" by blast
  have "count (hashmap_init True h c) \<le> len (hashmap_init True h c) * 3"
    by (simp add: hashmap_init_def)
  from run_load[OF wf_init this _ m(1)]
  have "grows_succeed (hashmap_init True h c) cs \<longrightarrow> count m \<le> len m * 3" by blast
  with m have 1: "\<exists>m. run (hashmap_init True h c) cs = Done m \<and>
        (\<exists>k. len m = 2 ^ k) \<and> MIN_SLOTS \<le> len m \<and>
        (grows_succeed (hashmap_init True h c) cs \<longrightarrow> count m \<le> len m * 3)"
    by (auto simp: wf_def)
  have 2: "wf m0 \<and> count m0 \<le> len m0 * 3 \<and> grows_succeed m0 cs \<longrightarrow>
             (\<exists>m. run m0 cs = Done m \<and> count m \<le> len m * 3)"
    using run_wf[of m0 cs] run_load[of m0 cs] by blast
  show ?thesis
    using 1 2 run_init_failed[of h c c1 cs] by (simp add: hashmap_init_def MIN_SLOTS_def)
qed

theorem capacity_invariant_witness:
  "grows_succeed (hashmap_init True hash_test cmp_test) (harness 49) \<and>
   (\<exists>m. run (hashmap_init True hash_test cmp_test) (harness 49) = Done m \<and>
        len m = 32 \<and> count m = 49 \<and> count m \<le> len m * 3) \<and>
   count crowded \<le> len crowded * 3 \<and> grows_succeed crowded (harness 49) \<and>
   (\<exists>m. run crowded (harness 49) = Done m \<and> count m \<le> len m * 3)"
proof -
  have g: "grows_succeed crowded (harness 49)" "count crowded \<le> len crowded * 3"
    by code_simp+
  from capacity_invariant[of True hash_test cmp_test "harness 49" crowded] harness_49_grows
    wf_crowded g
  obtain m m' where m: "run (hashmap_init True hash_test cmp_test) (harness 49) = Done m"
    "count m \<le> len m * 3" "run crowded (harness 49) = Done m'" "count m' \<le> len m' * 3"
    by blast
  with harness_49 harness_49_grows g show ?thesis by simp
qed

text \<open>
  C1. Take any list of insertions, with any outcomes of the reallocations, whose keys are
  pairwise distinct for \<open>cmp\<close>: the link stored by insertion \<open>i\<close> is accepted with the key
  of insertion \<open>j\<close> exactly when \<open>i = j\<close>. Performed on a freshly initialised table, the
  insertions run without a fault, and in the resulting table \<open>hashmap_get\<close> of every
  inserted key returns the link that was inserted with it (with its hash cached),
  however often \<open>len\<close> was doubled on the way. Every prefix of such a list is such a list,
  so this holds after each insertion.
\<close>

theorem inserted_keys_are_found:
  assumes "distinct_keys h c xs"
  shows "\<exists>m. run (hashmap_init True h c) (inserts xs) = Done m \<and>
             (\<forall>(ok, node, key) \<in> set xs. hashmap_get m key = Done (Some (node\<lparr>hash := h key\<rparr>)))"
proof -
  let ?st = "\<lambda>(ok :: bool, node :: 'b hash_node, key :: 'a). node\<lparr>hash := h key\<rparr>"
  from run_inserts_links[OF wf_init, of h c xs] obtain m where
    m: "run (hashmap_init True h c) (inserts xs) = Done m" "wf m" "hashf m = h" "cmp m = c"
       "mset (links m) = mset (links (hashmap_init True h c)) + mset (map ?st xs)"
    by (auto simp: hashmap_init_def)
  have "links (hashmap_init True h c) = []"
    by (simp add: links_def buckets_def hashmap_init_def calloc_def)
  with m(5) have "mset (links m) = mset (map ?st xs)" by simp
  then have l: "set (links m) = ?st ` set xs"
    by (metis set_mset_mset set_map)
  have "hashmap_get m key = Done (Some (node\<lparr>hash := h key\<rparr>))"
    if "(ok, node, key) \<in> set xs" for ok node key
  proof (rule hashmap_get_unique[OF m(2)])
    from that obtain j where j: "j < length xs" "xs ! j = (ok, node, key)"
      by (auto simp: in_set_conv_nth)
    show "node\<lparr>hash := h key\<rparr> \<in> set (links m)"
      using that l by force
    show "hash (node\<lparr>hash := h key\<rparr>) = hashf m key" by (simp add: m(3))
    have "(c ((fst (snd (xs ! j)))\<lparr>hash := h (snd (snd (xs ! j)))\<rparr>) (snd (snd (xs ! j))) \<noteq> 0) = (j = j)"
      using assms j(1) unfolding distinct_keys_def by blast
    then show "cmp m (node\<lparr>hash := h key\<rparr>) key \<noteq> 0"
      by (simp add: j(2) m(4))
    show "\<forall>x \<in> set (links m). cmp m x key \<noteq> 0 \<longrightarrow> x = node\<lparr>hash := h key\<rparr>"
    proof (intro ballI impI)
      fix x assume "x \<in> set (links m)" and c: "cmp m x key \<noteq> 0"
      then obtain y where "y \<in> set xs" "x = ?st y" using l by auto
      then obtain i where i: "i < length xs" "x = ?st (xs ! i)"
        by (auto simp: in_set_conv_nth)
      have "c ((fst (snd (xs ! i)))\<lparr>hash := h (snd (snd (xs ! i)))\<rparr>) (snd (snd (xs ! j))) \<noteq> 0"
        using c i(2) j(2) by (simp add: m(4) split_beta)
      with assms i(1) j(1) have "i = j" by (simp add: distinct_keys_def)
      with i(2) j(2) show "x = node\<lparr>hash := h key\<rparr>" by simp
    qed
  qed
  with m(1) show ?thesis by blast
qed

theorem inserted_keys_are_found_witness:
  "\<exists>m. run (hashmap_init True hash_test cmp_test) (harness 49) = Done m \<and> len m = 32 \<and>
       hashmap_get m 0 = Done (Some \<lparr>hash = 0, container = (0, 123)\<rparr>) \<and>
       hashmap_get m 16 = Done (Some \<lparr>hash = 16, container = (16, 139)\<rparr>) \<and>
       hashmap_get m 48 = Done (Some \<lparr>hash = 48, container = (48, 171)\<rparr>)"
proof -
  from inserted_keys_are_found[OF distinct_keys_entries, of 49] obtain m where
    m: "run (hashmap_init True hash_test cmp_test) (harness 49) = Done m"
    "\<forall>(ok, node, key) \<in> set (entries 49).
        hashmap_get m key = Done (Some (node\<lparr>hash := hash_test key\<rparr>))"
    by (auto simp: harness_def)
  have "(True, test_node 0 123, 0) \<in> set (entries 49)"
    "(True, test_node 16 139, 16) \<in> set (entries 49)"
    "(True, test_node 48 171, 48) \<in> set (entries 49)"
    by (simp_all add: entries_def image_iff)
  with m(2) have "hashmap_get m 0 = Done (Some \<lparr>hash = 0, container = (0, 123)\<rparr>)"
    "hashmap_get m 16 = Done (Some \<lparr>hash = 16, container = (16, 139)\<rparr>)"
    "hashmap_get m 48 = Done (Some \<lparr>hash = 48, container = (48, 171)\<rparr>)"
    by (auto simp: test_node_def hash_test_def)
  with m(1) harness_49 show ?thesis by simp
qed

text \<open>
  C9, as stated, fails: on the table of the test harness after 48 insertions (\<open>len = 16\<close>,
  \<open>count = 48\<close>, the next insertion grows the table), inserting key 48 and removing it
  again leaves \<open>count = 48\<close> but \<open>len = 32\<close>: the table has grown, its chains are split,
  and the next insertion no longer grows it. The interface shows the difference too: in
  a table of 48 links of which the last two were inserted with the key 100,
  \<open>hashmap_get\<close> of 100 returns the second of them; after an insertion and removal of
  the fresh key 200 it returns the first, because \<open>hashmap_grow\<close> has reversed the chain.
\<close>

theorem insert_then_remove_counterexample:
  "capacity crowded = (16, 48) \<and> grow_pending crowded \<and>
   outcome_map capacity (run crowded [Insert True (test_node 48 171) 48, Remove True 48]) =
     Done (32, 48) \<and>
   outcome_map grow_pending (run crowded [Insert True (test_node 48 171) 48, Remove True 48]) =
     Done False \<and>
   then_get (run (hashmap_init True hash_test cmp_test)
               (harness 46 @ [Insert True (test_node 100 1) 100, Insert True (test_node 100 2) 100]))
     100 = Done (Some \<lparr>hash = 100, container = (100, 2)\<rparr>) \<and>
   then_get (run (hashmap_init True hash_test cmp_test)
               (harness 46 @ [Insert True (test_node 100 1) 100, Insert True (test_node 100 2) 100,
                              Insert True (test_node 200 0) 200, Remove True 200]))
     100 = Done (Some \<lparr>hash = 100, container = (100, 1)\<rparr>)"
  by code_simp

text \<open>
  C9, amended. On a well-formed table, let \<open>hashmap_insert\<close> store a link that \<open>cmp\<close>
  accepts with its key, and let \<open>hashmap_remove\<close> of that key follow at once. Then the
  removal returns a link that \<open>cmp\<close> accepts with the key and \<open>count\<close> is what it was.
  When moreover the insertion does not grow the table (\<open>count + 1 \<le> len * 3\<close>, or the
  reallocation fails) and the table was not already due to shrink (\<open>count \<ge> len / 4\<close> or
  \<open>len = MIN_SLOTS\<close>), the removal returns the inserted link and the table is exactly
  the table before the insertion: bucket array, chains, \<open>len\<close> and \<open>count\<close>. When the
  insertion grows the table (a grow is pending and the reallocation succeeds), the
  removal does not shrink it back: \<open>len\<close> stays doubled, and the buckets stay the split
  chains that \<open>hashmap_grow\<close> made, with the returned link cut out of the chain of the
  key's bucket. No table reached from \<open>hashmap_init\<close> by calls of the interface is due
  to shrink.
\<close>

theorem insert_then_remove:
  assumes "wf m" "cmp m (stored m node key) key \<noteq> 0"
  shows "(\<exists>m1 found m2. hashmap_insert ok1 m node key = Done (0, m1) \<and>
            hashmap_remove ok2 m1 key = Done (Some found, m2) \<and>
            cmp m found key \<noteq> 0 \<and> count m2 = count m) \<and>
         (\<not> (grow_pending m \<and> ok1) \<and> \<not> shrink_pending m \<longrightarrow>
            (\<exists>m1. hashmap_insert ok1 m node key = Done (0, m1) \<and>
                  hashmap_remove ok2 m1 key = Done (Some (stored m node key), m))) \<and>
         (grow_pending m \<and> ok1 \<longrightarrow>
            (\<exists>m1 found rest m2. hashmap_insert ok1 m node key = Done (0, m1) \<and>
               len m1 = len m * 2 \<and>
               buckets m1 = grown (len m) (buckets (linked m node key)) \<and>
               remove_walk (cmp m) key (buckets m1 ! slot_of m1 key) = Some (found, rest) \<and>
               hashmap_remove ok2 m1 key = Done (Some found, m2) \<and>
               wf m2 \<and> len m2 = len m * 2 \<and> count m2 = count m \<and>
               buckets m2 = (buckets m1)[slot_of m1 key := rest])) \<and>
         (\<exists>m'. run (hashmap_init True h c) cs = Done m' \<and> wf m' \<and> \<not> shrink_pending m')"
proof -
  have 3: "\<exists>m'. run (hashmap_init True h c) cs = Done m' \<and> wf m' \<and> \<not> shrink_pending m'"
  proof -
    from run_wf[OF wf_init, of h c cs] obtain m' where
      m': "run (hashmap_init True h c) cs = Done m'" "wf m'" by blast
    have "\<not> shrink_pending (hashmap_init True h c)"
      by (simp add: shrink_pending_def hashmap_init_def)
    from run_not_shrink_pending[OF wf_init this m'(1)] m' show ?thesis by blast
  qed
  have 4: "grow_pending m \<and> ok1 \<longrightarrow>
            (\<exists>m1 found rest m2. hashmap_insert ok1 m node key = Done (0, m1) \<and>
               len m1 = len m * 2 \<and>
               buckets m1 = grown (len m) (buckets (linked m node key)) \<and>
               remove_walk (cmp m) key (buckets m1 ! slot_of m1 key) = Some (found, rest) \<and>
               hashmap_remove ok2 m1 key = Done (Some found, m2) \<and>
               wf m2 \<and> len m2 = len m * 2 \<and> count m2 = count m \<and>
               buckets m2 = (buckets m1)[slot_of m1 key := rest])"
  proof
    assume g: "grow_pending m \<and> ok1"
    from insert_grows_then_remove[OF assms, of ok2] g obtain found rest m2 where
      "hashmap_insert True m node key = Done (0, grown_map (linked m node key))"
      "remove_walk (cmp m) key
         (buckets (grown_map (linked m node key)) ! slot_of (grown_map (linked m node key)) key) =
         Some (found, rest)"
      "hashmap_remove ok2 (grown_map (linked m node key)) key = Done (Some found, m2)"
      "wf m2" "len m2 = len m * 2" "count m2 = count m"
      "buckets (grown_map (linked m node key)) = grown (len m) (buckets (linked m node key))"
      "buckets m2 =
         (buckets (grown_map (linked m node key)))[slot_of (grown_map (linked m node key)) key := rest]"
      by blast
    with g show "\<exists>m1 found rest m2. hashmap_insert ok1 m node key = Done (0, m1) \<and>
               len m1 = len m * 2 \<and>
               buckets m1 = grown (len m) (buckets (linked m node key)) \<and>
               remove_walk (cmp m) key (buckets m1 ! slot_of m1 key) = Some (found, rest) \<and>
               hashmap_remove ok2 m1 key = Done (Some found, m2) \<and>
               wf m2 \<and> len m2 = len m * 2 \<and> count m2 = count m \<and>
               buckets m2 = (buckets m1)[slot_of m1 key := rest]"
      by (intro exI[of _ "grown_map (linked m node key)"] exI[of _ found] exI[of _ rest]
            exI[of _ m2]) simp
  qed
  show ?thesis
    using insert_then_remove_count[OF assms, of ok1 ok2]
      insert_then_remove_same[OF assms, of ok1 ok2] 3 4
    by blast
qed

theorem insert_then_remove_witness:
  "\<not> grow_pending (hashmap_init True hash_test cmp_test) \<and>
   \<not> shrink_pending (hashmap_init True hash_test cmp_test) \<and>
   (\<exists>m1. hashmap_insert True (hashmap_init True hash_test cmp_test) (test_node 5 128) 5 = Done (0, m1) \<and>
         hashmap_remove True m1 5 =
           Done (Some \<lparr>hash = 5, container = (5, 128)\<rparr>, hashmap_init True hash_test cmp_test)) \<and>
   grow_pending crowded \<and>
   (\<exists>m1 found m2. hashmap_insert True crowded (test_node 48 171) 48 = Done (0, m1) \<and>
         len m1 = 32 \<and> hashmap_remove True m1 48 = Done (Some found, m2) \<and>
         len m2 = 32 \<and> count m2 = 48)"
proof -
  let ?m = "hashmap_init True hash_test cmp_test :: (nat, nat \<times> nat) hashmap"
  have g: "\<not> grow_pending ?m" "\<not> shrink_pending ?m"
    by (simp_all add: grow_pending_def shrink_pending_def hashmap_init_def MIN_SLOTS_def)
  have s: "stored ?m (test_node 5 128) 5 = \<lparr>hash = 5, container = (5, 128)\<rparr>"
    by (simp add: stored_def hashmap_init_def hash_test_def test_node_def)
  have c: "cmp ?m (stored ?m (test_node 5 128) 5) 5 \<noteq> 0"
    by (simp add: s) (simp add: hashmap_init_def cmp_test_def)
  have gc: "grow_pending crowded" "len crowded = 16" "count crowded = 48"
    "cmp crowded (stored crowded (test_node 48 171) 48) 48 \<noteq> 0"
    by code_simp+
  from insert_then_remove[OF wf_crowded gc(4), of True True hash_test cmp_test "[]"] gc(1)
  have "\<exists>m1 found rest m2. hashmap_insert True crowded (test_node 48 171) 48 = Done (0, m1) \<and>
               len m1 = len crowded * 2 \<and>
               hashmap_remove True m1 48 = Done (Some found, m2) \<and>
               len m2 = len crowded * 2 \<and> count m2 = count crowded"
    by blast
  then have "\<exists>m1 found m2. hashmap_insert True crowded (test_node 48 171) 48 = Done (0, m1) \<and>
         len m1 = 32 \<and> hashmap_remove True m1 48 = Done (Some found, m2) \<and>
         len m2 = 32 \<and> count m2 = 48"
    by (simp add: gc)
  with insert_then_remove[OF wf_init c, of True True hash_test cmp_test "[]"] g s gc(1)
  show ?thesis by simp
qed

text \<open>
  C6, as stated, fails. On the table of the test harness after 48 insertions the next
  insertion calls \<open>hashmap_grow\<close>; when the reallocation fails \<open>hashmap_grow\<close> returns
  \<open>-1\<close>, and \<open>hashmap_insert\<close> returns \<open>0\<close>, as it does when the reallocation succeeds.
  \<open>hashmap_init\<close> returns nothing: when \<^verbatim>\<open>calloc\<close> fails it leaves a table whose bucket
  array is \<^verbatim>\<open>NULL\<close>.
\<close>

theorem allocation_failure_counterexample:
  "grow_pending crowded \<and>
   outcome_map fst (hashmap_grow False (linked crowded (test_node 48 171) 48)) = Done (- 1) \<and>
   outcome_map fst (hashmap_insert False crowded (test_node 48 171) 48) = Done 0 \<and>
   outcome_map fst (hashmap_insert True crowded (test_node 48 171) 48) = Done 0 \<and>
   table (hashmap_init False hash_test cmp_test) = None"
  by code_simp

text \<open>
  C6, amended. No function of the interface reports an allocation failure.
  \<open>hashmap_insert\<close> returns \<open>0\<close> whenever it returns, whatever the outcome of the
  reallocation; \<open>hashmap_remove\<close> returns the same link (or \<^verbatim>\<open>NULL\<close>) whether the
  reallocation of a triggered shrink succeeds or fails. Only \<open>hashmap_grow\<close> and
  \<open>hashmap_shrink\<close> return \<open>-1\<close> for a failed reallocation, to \<open>hashmap_insert\<close> and
  \<open>hashmap_remove\<close>, which drop it. \<open>hashmap_init\<close> has no result: after a failed
  \<^verbatim>\<open>calloc\<close> the bucket array is \<^verbatim>\<open>NULL\<close>, \<open>len\<close> is \<open>MIN_SLOTS\<close>, and every later
  call reads through the \<^verbatim>\<open>NULL\<close> pointer.
\<close>

theorem allocation_failures_not_reported:
  "(outcome_map fst (hashmap_insert ok m node key) = Fault \<or>
    outcome_map fst (hashmap_insert ok m node key) = Done 0) \<and>
   (wf m \<longrightarrow> outcome_map fst (hashmap_insert ok m node key) = Done 0) \<and>
   outcome_map fst (hashmap_remove False m key) = outcome_map fst (hashmap_remove True m key) \<and>
   hashmap_grow False m = Done (- 1, m) \<and>
   (wf m \<longrightarrow> outcome_map fst (hashmap_shrink False m) = Done (- 1)) \<and>
   table (hashmap_init False h c) = None \<and> len (hashmap_init False h c) = MIN_SLOTS \<and>
   hashmap_get (hashmap_init False h c) key = Fault \<and>
   hashmap_insert ok (hashmap_init False h c) node key = Fault \<and>
   hashmap_remove ok (hashmap_init False h c) key = Fault"
proof -
  have 1: "wf m \<longrightarrow> outcome_map fst (hashmap_insert ok m node key) = Done 0"
    by (simp add: hashmap_insert_wf)
  have 2: "wf m \<longrightarrow> outcome_map fst (hashmap_shrink False m) = Done (- 1)"
    by (simp add: hashmap_shrink_wf)
  have 3: "table (hashmap_init False h c) = None" "len (hashmap_init False h c) = MIN_SLOTS"
    by (simp_all add: hashmap_init_def calloc_def)
  show ?thesis
    using 1 2 3 hashmap_insert_status[of ok m node key] hashmap_remove_result[of m key]
      hashmap_grow_fail[of m]
    by (simp add: init_failed_faults)
qed

theorem allocation_failures_not_reported_witness:
  "outcome_map fst (hashmap_insert False crowded (test_node 48 171) 48) = Done 0 \<and>
   outcome_map fst (hashmap_shrink False crowded) = Done (- 1)"
  using allocation_failures_not_reported[of False crowded "test_node 48 171" 48] wf_crowded
  by simp




end
